theory Spec2Isabelle
  imports Main "HOL-Library.List_Lexorder" "HOL-Library.Product_Lexorder" "HOL-Library.Multiset"
begin

section \<open>Python strings\<close>

text \<open>
  A Python \<open>str\<close> is a sequence of Unicode code points. It is modelled as a list of
  code points, so that the line boundaries and the white space beyond Latin-1 that
  \<open>str.splitlines\<close> and \<open>str.strip\<close> know are covered. Python compares strings
  lexicographically by code point, which is the order of \<open>HOL-Library.List_Lexorder\<close>.
\<close>

type_synonym pystr = "nat list"

definition py :: "string \<Rightarrow> pystr" where
  "py s = map of_char s"

text \<open>The line boundaries of \<open>str.splitlines\<close>: LF, VT, FF, CR, FS, GS, RS, NEL, LS, PS.\<close>

definition is_linebreak :: "nat \<Rightarrow> bool" where
  "is_linebreak c \<longleftrightarrow> c \<in> {10, 11, 12, 13, 28, 29, 30, 133, 8232, 8233}"

text \<open>
  \<open>s.splitlines(keepends)\<close>. \<open>cur\<close> holds the characters of the line being read. CR
  followed by LF is one boundary. A last line without a line boundary is kept only when it
  is not empty.
\<close>

fun splitlines_from :: "bool \<Rightarrow> pystr \<Rightarrow> pystr \<Rightarrow> pystr list" where
  "splitlines_from keepends cur [] = (if cur = [] then [] else [cur])"
| "splitlines_from keepends cur (c # cs) =
     (if is_linebreak c then
        (if c = 13 \<and> cs \<noteq> [] \<and> hd cs = 10
         then (cur @ (if keepends then [c, 10] else [])) # splitlines_from keepends [] (tl cs)
         else (cur @ (if keepends then [c] else [])) # splitlines_from keepends [] cs)
      else splitlines_from keepends (cur @ [c]) cs)"

definition splitlines :: "bool \<Rightarrow> pystr \<Rightarrow> pystr list" where
  "splitlines keepends s = splitlines_from keepends [] s"

text \<open>The code points for which \<open>str.isspace\<close> holds; \<open>str.strip()\<close> removes them at both ends.\<close>

definition isspace :: "nat \<Rightarrow> bool" where
  "isspace c \<longleftrightarrow>
     (9 \<le> c \<and> c \<le> 13) \<or> (28 \<le> c \<and> c \<le> 32) \<or> c = 133 \<or> c = 160 \<or> c = 5760 \<or>
     (8192 \<le> c \<and> c \<le> 8202) \<or> c = 8232 \<or> c = 8233 \<or> c = 8239 \<or> c = 8287 \<or> c = 12288"

definition rstrip :: "pystr \<Rightarrow> pystr" where
  "rstrip s = rev (dropWhile isspace (rev s))"

definition strip :: "pystr \<Rightarrow> pystr" where
  "strip s = rstrip (dropWhile isspace s)"

text \<open>\<open>str(n)\<close> for a non-negative integer: its decimal digits.\<close>

fun str_nat :: "nat \<Rightarrow> pystr" where
  "str_nat n = (if n < 10 then [48 + n] else str_nat (n div 10) @ [48 + n mod 10])"

declare str_nat.simps [simp del]

section \<open>The unified diff of the standard library\<close>

text \<open>
  \<open>difflib.unified_diff\<close> is called with two lists of lines. It runs
  \<open>SequenceMatcher(None, a, b)\<close>: no junk predicate, so the junk set is empty, and
  \<open>autojunk\<close> on. The functions below follow \<open>difflib.py\<close> function by function.
  Indices are natural numbers; every subtraction of the source is written so that it
  agrees with Python's integer subtraction where the source evaluates it (the guards of
  the source keep the left operand at least as large as the right one, or a \<open>max\<close>
  with a non-negative bound follows).
\<close>

text \<open>
  \<open>__chain_b\<close>, first loop: \<open>b2j\<close> maps each element of \<open>b\<close> to the increasing list
  of the indices where it occurs.
\<close>

fun chain_b_loop :: "'a list \<Rightarrow> nat \<Rightarrow> ('a \<rightharpoonup> nat list) \<Rightarrow> ('a \<rightharpoonup> nat list)" where
  "chain_b_loop [] i b2j = b2j"
| "chain_b_loop (elt # rest) i b2j =
     chain_b_loop rest (i + 1)
       (b2j(elt \<mapsto> (case b2j elt of None \<Rightarrow> [] | Some indices \<Rightarrow> indices) @ [i]))"

text \<open>
  \<open>__chain_b\<close>, the purge of popular elements: when \<open>b\<close> has at least 200 elements,
  every element that occurs more than \<open>n // 100 + 1\<close> times is deleted from \<open>b2j\<close>.
\<close>

definition chain_b :: "'a list \<Rightarrow> ('a \<rightharpoonup> nat list)" where
  "chain_b b =
     (let b2j = chain_b_loop b 0 Map.empty; n = length b in
      if n \<ge> 200 then
        (let ntest = n div 100 + 1 in
         (\<lambda>elt. case b2j elt of
                   None \<Rightarrow> None
                 | Some idxs \<Rightarrow> if length idxs > ntest then None else Some idxs))
      else b2j)"

text \<open>
  \<open>find_longest_match\<close>, the inner loop over the indices \<open>j\<close> of \<open>b\<close> that hold
  \<open>a[i]\<close>. The state is \<open>(newj2len, besti, bestj, bestsize)\<close>.
  \<open>j2lenget(j-1, 0)\<close>: the key \<open>-1\<close> is never stored, so for \<open>j = 0\<close> the
  default is taken. \<open>i-k+1\<close> is written \<open>i + 1 - k\<close> (and \<open>k \<le> i + 1\<close> always, see
  \<open>j2len_inv\<close> below).
\<close>

type_synonym flm_state = "(nat \<rightharpoonup> nat) \<times> nat \<times> nat \<times> nat"

definition j2lenget :: "(nat \<rightharpoonup> nat) \<Rightarrow> nat \<Rightarrow> nat" where
  "j2lenget j2len j = (if j = 0 then 0 else (case j2len (j - 1) of None \<Rightarrow> 0 | Some k \<Rightarrow> k))"

fun flm_inner :: "nat \<Rightarrow> nat \<Rightarrow> nat \<Rightarrow> (nat \<rightharpoonup> nat) \<Rightarrow> nat list \<Rightarrow> flm_state \<Rightarrow> flm_state" where
  "flm_inner i blo bhi j2len [] st = st"
| "flm_inner i blo bhi j2len (j # js) (newj2len, besti, bestj, bestsize) =
     (if j < blo then flm_inner i blo bhi j2len js (newj2len, besti, bestj, bestsize)
      else if j \<ge> bhi then (newj2len, besti, bestj, bestsize)
      else
        (let k = j2lenget j2len j + 1; newj2len' = newj2len(j \<mapsto> k) in
         if k > bestsize
         then flm_inner i blo bhi j2len js (newj2len', i + 1 - k, j + 1 - k, k)
         else flm_inner i blo bhi j2len js (newj2len', besti, bestj, bestsize)))"

text \<open>The outer loop \<open>for i in range(alo, ahi)\<close>; the state is \<open>(j2len, besti, bestj, bestsize)\<close>.\<close>

fun flm_outer :: "'a list \<Rightarrow> ('a \<rightharpoonup> nat list) \<Rightarrow> nat \<Rightarrow> nat \<Rightarrow> nat list \<Rightarrow> flm_state \<Rightarrow> flm_state" where
  "flm_outer a b2j blo bhi [] st = st"
| "flm_outer a b2j blo bhi (i # is) (j2len, besti, bestj, bestsize) =
     flm_outer a b2j blo bhi is
       (flm_inner i blo bhi j2len
          (case b2j (a ! i) of None \<Rightarrow> [] | Some js \<Rightarrow> js)
          (Map.empty, besti, bestj, bestsize))"

text \<open>
  The first two \<open>while\<close> loops extend the match to both sides over elements that are
  not junk; with the empty junk set \<open>isbjunk\<close> is always false, so the two later loops
  (over junk elements) never run.
\<close>

function extend_back :: "'a list \<Rightarrow> 'a list \<Rightarrow> nat \<Rightarrow> nat \<Rightarrow> nat \<times> nat \<times> nat \<Rightarrow> nat \<times> nat \<times> nat" where
  "extend_back a b alo blo (besti, bestj, bestsize) =
     (if besti > alo \<and> bestj > blo \<and> a ! (besti - 1) = b ! (bestj - 1)
      then extend_back a b alo blo (besti - 1, bestj - 1, bestsize + 1)
      else (besti, bestj, bestsize))"
  by pat_completeness auto
termination
  by (relation "measure (\<lambda>(a, b, alo, blo, besti, bestj, bestsize). besti)") auto

function extend_forward :: "'a list \<Rightarrow> 'a list \<Rightarrow> nat \<Rightarrow> nat \<Rightarrow> nat \<times> nat \<times> nat \<Rightarrow> nat \<times> nat \<times> nat" where
  "extend_forward a b ahi bhi (besti, bestj, bestsize) =
     (if besti + bestsize < ahi \<and> bestj + bestsize < bhi
         \<and> a ! (besti + bestsize) = b ! (bestj + bestsize)
      then extend_forward a b ahi bhi (besti, bestj, bestsize + 1)
      else (besti, bestj, bestsize))"
  by pat_completeness auto
termination
  by (relation "measure (\<lambda>(a, b, ahi, bhi, besti, bestj, bestsize). ahi - (besti + bestsize))") auto

declare extend_back.simps [simp del] extend_forward.simps [simp del]

definition find_longest_match ::
  "'a list \<Rightarrow> 'a list \<Rightarrow> ('a \<rightharpoonup> nat list) \<Rightarrow> nat \<Rightarrow> nat \<Rightarrow> nat \<Rightarrow> nat \<Rightarrow> nat \<times> nat \<times> nat" where
  "find_longest_match a b b2j alo ahi blo bhi =
     (case flm_outer a b2j blo bhi [alo..<ahi] (Map.empty, alo, blo, 0) of
        (j2len, besti, bestj, bestsize) \<Rightarrow>
          extend_forward a b ahi bhi (extend_back a b alo blo (besti, bestj, bestsize)))"

subsection \<open>What \<open>find_longest_match\<close> returns\<close>

text \<open>
  The termination of the search for matching blocks rests on the bounds of the block that
  \<open>find_longest_match\<close> returns, so they are proved first: the block lies in the
  rectangle searched and its elements agree pairwise.
\<close>

definition b2j_ok :: "'a list \<Rightarrow> ('a \<rightharpoonup> nat list) \<Rightarrow> bool" where
  "b2j_ok b b2j \<longleftrightarrow> (\<forall>x js. b2j x = Some js \<longrightarrow> (\<forall>j\<in>set js. b ! j = x))"

definition blk_inv :: "'a list \<Rightarrow> 'a list \<Rightarrow> nat \<Rightarrow> nat \<Rightarrow> nat \<Rightarrow> nat \<Rightarrow> nat \<times> nat \<times> nat \<Rightarrow> bool" where
  "blk_inv a b alo ahi blo bhi blk \<longleftrightarrow>
     (case blk of (i, j, k) \<Rightarrow>
        alo \<le> i \<and> blo \<le> j \<and>
        ((k = 0 \<and> i = alo \<and> j = blo) \<or> (i + k \<le> ahi \<and> j + k \<le> bhi)) \<and>
        (\<forall>t<k. a ! (i + t) = b ! (j + t)))"

definition j2len_inv :: "'a list \<Rightarrow> 'a list \<Rightarrow> nat \<Rightarrow> nat \<Rightarrow> nat \<Rightarrow> nat \<Rightarrow> (nat \<rightharpoonup> nat) \<Rightarrow> bool" where
  "j2len_inv a b alo blo bhi i j2len \<longleftrightarrow>
     (\<forall>j k. j2len j = Some k \<longrightarrow>
        1 \<le> k \<and> alo + k \<le> i \<and> blo + k \<le> j + 1 \<and> j < bhi \<and>
        (\<forall>t<k. a ! (i - k + t) = b ! (j + 1 - k + t)))"

lemma chain_b_loop_ok:
  "(\<forall>x js. m x = Some js \<longrightarrow> (\<forall>j\<in>set js. (pre @ b) ! j = x)) \<Longrightarrow> i = length pre \<Longrightarrow>
   chain_b_loop b i m x = Some js \<Longrightarrow> j \<in> set js \<Longrightarrow> (pre @ b) ! j = x"
proof (induction b arbitrary: i m pre)
  case Nil
  then show ?case by simp
next
  case (Cons elt rest)
  let ?m = "m(elt \<mapsto> (case m elt of None \<Rightarrow> [] | Some indices \<Rightarrow> indices) @ [i])"
  have step: "\<forall>x js. ?m x = Some js \<longrightarrow> (\<forall>j\<in>set js. ((pre @ [elt]) @ rest) ! j = x)"
  proof (cases "m elt")
    case None
    then show ?thesis using Cons.prems(1,2) by auto
  next
    case (Some old)
    then have "\<forall>j\<in>set old. (pre @ elt # rest) ! j = elt" using Cons.prems(1) by blast
    then show ?thesis using Some Cons.prems(1,2) by auto
  qed
  have e: "chain_b_loop rest (i + 1) ?m x = Some js"
    using Cons.prems(3) by simp
  have l: "i + 1 = length (pre @ [elt])"
    using Cons.prems(2) by simp
  have "((pre @ [elt]) @ rest) ! j = x"
    by (rule Cons.IH[OF step l e Cons.prems(4)])
  then show ?case by simp
qed

lemma chain_b_ok: "b2j_ok b (chain_b b)"
proof -
  have base: "b2j_ok b (chain_b_loop b 0 Map.empty)"
    unfolding b2j_ok_def using chain_b_loop_ok[of Map.empty "[]" b 0] by auto
  show ?thesis
    using base unfolding chain_b_def b2j_ok_def Let_def
    by (auto split: option.splits if_splits)
qed

lemma flm_inner_inv:
  assumes "j2len_inv a b alo blo bhi i j2len"
      and "\<forall>j\<in>set js. b ! j = a ! i"
      and "alo \<le> i" "i < ahi"
      and "j2len_inv a b alo blo bhi (i + 1) new"
      and "blk_inv a b alo ahi blo bhi (bi, bj, bs)"
      and "flm_inner i blo bhi j2len js (new, bi, bj, bs) = (new', bi', bj', bs')"
  shows "j2len_inv a b alo blo bhi (i + 1) new' \<and> blk_inv a b alo ahi blo bhi (bi', bj', bs')"
  using assms
proof (induction js arbitrary: new bi bj bs)
  case Nil
  then show ?case by simp
next
  case (Cons j js)
  show ?case
  proof (cases "j < blo")
    case True
    then show ?thesis using Cons by simp
  next
    case lo: False
    show ?thesis
    proof (cases "j \<ge> bhi")
      case True
      then show ?thesis using Cons lo by simp
    next
      case hi: False
      define k where "k = j2lenget j2len j + 1"
      have aij: "b ! j = a ! i" using Cons.prems(2) by simp
      have kprops: "1 \<le> k \<and> alo + k \<le> i + 1 \<and> blo + k \<le> j + 1 \<and>
            (\<forall>t<k. a ! (i + 1 - k + t) = b ! (j + 1 - k + t))"
      proof (cases "j = 0 \<or> j2len (j - 1) = None")
        case True
        then have "k = 1" by (auto simp: k_def j2lenget_def)
        then show ?thesis using aij lo Cons.prems(3) by simp
      next
        case False
        then obtain k' where k': "j \<noteq> 0" "j2len (j - 1) = Some k'" by auto
        then have kk: "k = k' + 1" by (simp add: k_def j2lenget_def)
        from Cons.prems(1) k' have g: "1 \<le> k'" "alo + k' \<le> i" "blo + k' \<le> j"
          "\<forall>t<k'. a ! (i - k' + t) = b ! (j - k' + t)"
          unfolding j2len_inv_def by (fastforce)+
        have "\<forall>t<k. a ! (i + 1 - k + t) = b ! (j + 1 - k + t)"
        proof (intro allI impI)
          fix t assume "t < k"
          show "a ! (i + 1 - k + t) = b ! (j + 1 - k + t)"
          proof (cases "t < k'")
            case True
            then show ?thesis using g(4) kk by simp
          next
            case False
            then have "t = k'" using \<open>t < k\<close> kk by simp
            then show ?thesis using kk g aij by simp
          qed
        qed
        then show ?thesis using kk g by simp
      qed
      have new_ok: "j2len_inv a b alo blo bhi (i + 1) (new(j \<mapsto> k))"
        using Cons.prems(5) kprops hi unfolding j2len_inv_def by auto
      have best_ok: "blk_inv a b alo ahi blo bhi (i + 1 - k, j + 1 - k, k)"
        using kprops hi Cons.prems(3,4) unfolding blk_inv_def by auto
      show ?thesis
      proof (cases "k > bs")
        case True
        then have "flm_inner i blo bhi j2len js (new(j \<mapsto> k), i + 1 - k, j + 1 - k, k) = (new', bi', bj', bs')"
          using Cons.prems(7) lo hi by (simp add: k_def Let_def)
        moreover have "\<forall>j\<in>set js. b ! j = a ! i" using Cons.prems(2) by simp
        ultimately show ?thesis
          by (rule Cons.IH[OF Cons.prems(1) _ Cons.prems(3,4) new_ok best_ok, rotated])
      next
        case False
        then have "flm_inner i blo bhi j2len js (new(j \<mapsto> k), bi, bj, bs) = (new', bi', bj', bs')"
          using Cons.prems(7) lo hi by (simp add: k_def Let_def)
        moreover have "\<forall>j\<in>set js. b ! j = a ! i" using Cons.prems(2) by simp
        ultimately show ?thesis
          by (rule Cons.IH[OF Cons.prems(1) _ Cons.prems(3,4) new_ok Cons.prems(6), rotated])
      qed
    qed
  qed
qed

lemma flm_outer_inv:
  assumes "b2j_ok b b2j"
  shows "j2len_inv a b alo blo bhi i j2len \<Longrightarrow> alo \<le> i \<Longrightarrow>
         blk_inv a b alo ahi blo bhi (bi, bj, bs) \<Longrightarrow>
         flm_outer a b2j blo bhi [i..<ahi] (j2len, bi, bj, bs) = (j2len', bi', bj', bs') \<Longrightarrow>
         blk_inv a b alo ahi blo bhi (bi', bj', bs')"
proof (induction "ahi - i" arbitrary: i j2len bi bj bs)
  case 0
  then show ?case by simp
next
  case (Suc n)
  then have lt: "i < ahi" by simp
  then have rows: "[i..<ahi] = i # [i + 1..<ahi]" by (simp add: upt_rec)
  define js where "js = (case b2j (a ! i) of None \<Rightarrow> [] | Some js \<Rightarrow> js)"
  have js_ok: "\<forall>j\<in>set js. b ! j = a ! i"
    using assms unfolding js_def b2j_ok_def by (cases "b2j (a ! i)") auto
  obtain new bi1 bj1 bs1 where
    inner: "flm_inner i blo bhi j2len js (Map.empty, bi, bj, bs) = (new, bi1, bj1, bs1)"
    by (metis prod_cases4)
  have empty_ok: "j2len_inv a b alo blo bhi (i + 1) Map.empty"
    by (simp add: j2len_inv_def)
  have step: "j2len_inv a b alo blo bhi (i + 1) new \<and> blk_inv a b alo ahi blo bhi (bi1, bj1, bs1)"
    by (rule flm_inner_inv[OF Suc.prems(1) js_ok Suc.prems(2) lt empty_ok Suc.prems(3) inner])
  have rest: "flm_outer a b2j blo bhi [i + 1..<ahi] (new, bi1, bj1, bs1) = (j2len', bi', bj', bs')"
    using Suc.prems(4) inner by (simp add: rows js_def)
  have n: "n = ahi - (i + 1)" using Suc.hyps(2) by simp
  show ?case
    by (rule Suc.hyps(1)[OF n _ _ _ rest]) (use step Suc.prems(2) in simp_all)
qed

lemma extend_back_inv:
  "blk_inv a b alo ahi blo bhi blk \<Longrightarrow> blk_inv a b alo ahi blo bhi (extend_back a b alo blo blk)"
proof (induction a b alo blo blk rule: extend_back.induct)
  case (1 a b alo blo besti bestj bestsize)
  show ?case
  proof (cases "besti > alo \<and> bestj > blo \<and> a ! (besti - 1) = b ! (bestj - 1)")
    case True
    have "\<forall>t<bestsize + 1. a ! (besti - 1 + t) = b ! (bestj - 1 + t)"
    proof (intro allI impI)
      fix t assume t: "t < bestsize + 1"
      show "a ! (besti - 1 + t) = b ! (bestj - 1 + t)"
      proof (cases t)
        case 0
        then show ?thesis using True by simp
      next
        case (Suc u)
        then have "u < bestsize" using t by simp
        then have "a ! (besti + u) = b ! (bestj + u)" using "1.prems" by (simp add: blk_inv_def)
        then show ?thesis using Suc True by simp
      qed
    qed
    then have "blk_inv a b alo ahi blo bhi (besti - 1, bestj - 1, bestsize + 1)"
      using True "1.prems" unfolding blk_inv_def
      by auto
    moreover have "extend_back a b alo blo (besti, bestj, bestsize) =
        extend_back a b alo blo (besti - 1, bestj - 1, bestsize + 1)"
      by (subst extend_back.simps) (use True in simp)
    ultimately show ?thesis using "1.IH" True by simp
  next
    case False
    have "extend_back a b alo blo (besti, bestj, bestsize) = (besti, bestj, bestsize)"
      by (subst extend_back.simps) (use False in auto)
    then show ?thesis using "1.prems" by simp
  qed
qed

lemma extend_forward_inv:
  "blk_inv a b alo ahi blo bhi blk \<Longrightarrow> blk_inv a b alo ahi blo bhi (extend_forward a b ahi bhi blk)"
proof (induction a b ahi bhi blk rule: extend_forward.induct)
  case (1 a b ahi bhi besti bestj bestsize)
  show ?case
  proof (cases "besti + bestsize < ahi \<and> bestj + bestsize < bhi
         \<and> a ! (besti + bestsize) = b ! (bestj + bestsize)")
    case True
    have "\<forall>t<bestsize + 1. a ! (besti + t) = b ! (bestj + t)"
      using True "1.prems" by (auto simp: blk_inv_def less_Suc_eq)
    then have "blk_inv a b alo ahi blo bhi (besti, bestj, bestsize + 1)"
      using True "1.prems" unfolding blk_inv_def by auto
    moreover have "extend_forward a b ahi bhi (besti, bestj, bestsize) =
        extend_forward a b ahi bhi (besti, bestj, bestsize + 1)"
      by (subst extend_forward.simps) (use True in simp)
    ultimately show ?thesis using "1.IH" True by simp
  next
    case False
    have "extend_forward a b ahi bhi (besti, bestj, bestsize) = (besti, bestj, bestsize)"
      by (subst extend_forward.simps) (use False in auto)
    then show ?thesis using "1.prems" by simp
  qed
qed

lemma find_longest_match_inv:
  assumes "b2j_ok b b2j"
  shows "blk_inv a b alo ahi blo bhi (find_longest_match a b b2j alo ahi blo bhi)"
proof -
  obtain j2len bi bj bs where
    o: "flm_outer a b2j blo bhi [alo..<ahi] (Map.empty, alo, blo, 0) = (j2len, bi, bj, bs)"
    by (metis prod_cases4)
  have "blk_inv a b alo ahi blo bhi (bi, bj, bs)"
    by (rule flm_outer_inv[OF assms _ _ _ o]) (simp_all add: j2len_inv_def blk_inv_def)
  then show ?thesis
    unfolding find_longest_match_def o
    by (simp add: extend_back_inv extend_forward_inv)
qed

lemma flm_bounds:
  "(i, j, k) = find_longest_match a b (chain_b b) alo ahi blo bhi \<Longrightarrow> 0 < k \<Longrightarrow>
     alo \<le> i \<and> i + k \<le> ahi \<and> blo \<le> j \<and> j + k \<le> bhi"
  using find_longest_match_inv[OF chain_b_ok, of a b alo ahi blo bhi]
  by (auto simp: blk_inv_def)

text \<open>
  \<open>get_matching_blocks\<close>, the loop over the queue of rectangles still to search. The
  queue is a stack: \<open>queue.pop()\<close> takes the last element of the Python list, which is
  the head of the list here.
\<close>

function gmb_loop ::
  "'a list \<Rightarrow> 'a list \<Rightarrow> (nat \<times> nat \<times> nat \<times> nat) list \<Rightarrow> (nat \<times> nat \<times> nat) list
   \<Rightarrow> (nat \<times> nat \<times> nat) list" where
  "gmb_loop a b [] matching_blocks = matching_blocks"
| "gmb_loop a b ((alo, ahi, blo, bhi) # queue) matching_blocks =
     (case find_longest_match a b (chain_b b) alo ahi blo bhi of
        (i, j, k) \<Rightarrow>
          if k \<noteq> 0 then
            gmb_loop a b
              ((if i + k < ahi \<and> j + k < bhi then [(i + k, ahi, j + k, bhi)] else []) @
               (if alo < i \<and> blo < j then [(alo, i, blo, j)] else []) @ queue)
              (matching_blocks @ [(i, j, k)])
          else gmb_loop a b queue matching_blocks)"
  by pat_completeness auto
termination
  apply (relation "measure (\<lambda>(a, b, queue, mbs). \<Sum>(alo, ahi, blo, bhi) \<leftarrow> queue. 2 * (ahi - alo) + 1)")
  apply simp
  apply (auto dest!: flm_bounds)
  done

text \<open>
  \<open>get_matching_blocks\<close>, the second loop: after \<open>matching_blocks.sort()\<close>, adjacent
  blocks are merged. The state is the pending block \<open>(i1, j1, k1)\<close> and the list
  \<open>non_adjacent\<close>; the equation for the empty list is the code after the loop.
\<close>

fun merge_adjacent ::
  "(nat \<times> nat \<times> nat) list \<Rightarrow> nat \<times> nat \<times> nat \<Rightarrow> (nat \<times> nat \<times> nat) list
   \<Rightarrow> (nat \<times> nat \<times> nat) list" where
  "merge_adjacent [] (i1, j1, k1) non_adjacent =
     (if k1 \<noteq> 0 then non_adjacent @ [(i1, j1, k1)] else non_adjacent)"
| "merge_adjacent ((i2, j2, k2) # rest) (i1, j1, k1) non_adjacent =
     (if i1 + k1 = i2 \<and> j1 + k1 = j2
      then merge_adjacent rest (i1, j1, k1 + k2) non_adjacent
      else merge_adjacent rest (i2, j2, k2)
             (if k1 \<noteq> 0 then non_adjacent @ [(i1, j1, k1)] else non_adjacent))"

definition get_matching_blocks :: "'a list \<Rightarrow> 'a list \<Rightarrow> (nat \<times> nat \<times> nat) list" where
  "get_matching_blocks a b =
     (let la = length a; lb = length b;
          matching_blocks = sort (gmb_loop a b [(0, la, 0, lb)] [])
      in merge_adjacent matching_blocks (0, 0, 0) [] @ [(la, lb, 0)])"

text \<open>\<open>get_opcodes\<close>. The tags are the four strings of the source.\<close>

datatype tag = Replace | Delete | Insert | Equal

type_synonym opcode = "tag \<times> nat \<times> nat \<times> nat \<times> nat"

fun opcodes_loop :: "(nat \<times> nat \<times> nat) list \<Rightarrow> nat \<Rightarrow> nat \<Rightarrow> opcode list \<Rightarrow> opcode list" where
  "opcodes_loop [] i j answer = answer"
| "opcodes_loop ((ai, bj, sz) # rest) i j answer =
     (let answer1 =
            (if i < ai \<and> j < bj then answer @ [(Replace, i, ai, j, bj)]
             else if i < ai then answer @ [(Delete, i, ai, j, bj)]
             else if j < bj then answer @ [(Insert, i, ai, j, bj)]
             else answer);
          i' = ai + sz;
          j' = bj + sz;
          answer2 = (if sz \<noteq> 0 then answer1 @ [(Equal, ai, i', bj, j')] else answer1)
      in opcodes_loop rest i' j' answer2)"

definition get_opcodes :: "'a list \<Rightarrow> 'a list \<Rightarrow> opcode list" where
  "get_opcodes a b = opcodes_loop (get_matching_blocks a b) 0 0 []"

text \<open>
  \<open>get_grouped_opcodes(n)\<close>. The loop state is the group being built and the groups
  already yielded; the equation for the empty list is the code after the loop.
  \<open>i2-n\<close> occurs only under \<open>max(i1, ...)\<close> and \<open>i2-i1\<close> only in a comparison
  with a non-negative number, so truncated subtraction gives the same result.
\<close>

fun group_loop :: "nat \<Rightarrow> opcode list \<Rightarrow> opcode list \<Rightarrow> opcode list list \<Rightarrow> opcode list list" where
  "group_loop n [] grp groups =
     (if grp \<noteq> [] \<and> \<not> (length grp = 1 \<and> fst (hd grp) = Equal)
      then groups @ [grp] else groups)"
| "group_loop n ((tag, i1, i2, j1, j2) # rest) grp groups =
     (if tag = Equal \<and> i2 - i1 > n + n
      then group_loop n rest
             [(tag, max i1 (i2 - n), i2, max j1 (j2 - n), j2)]
             (groups @ [grp @ [(tag, i1, min i2 (i1 + n), j1, min j2 (j1 + n))]])
      else group_loop n rest (grp @ [(tag, i1, i2, j1, j2)]) groups)"

definition fix_first :: "nat \<Rightarrow> opcode list \<Rightarrow> opcode list" where
  "fix_first n codes =
     (case hd codes of (tag, i1, i2, j1, j2) \<Rightarrow>
        if tag = Equal then (tag, max i1 (i2 - n), i2, max j1 (j2 - n), j2) # tl codes
        else codes)"

definition fix_last :: "nat \<Rightarrow> opcode list \<Rightarrow> opcode list" where
  "fix_last n codes =
     (case last codes of (tag, i1, i2, j1, j2) \<Rightarrow>
        if tag = Equal then butlast codes @ [(tag, i1, min i2 (i1 + n), j1, min j2 (j1 + n))]
        else codes)"

definition get_grouped_opcodes :: "'a list \<Rightarrow> 'a list \<Rightarrow> nat \<Rightarrow> opcode list list" where
  "get_grouped_opcodes a b n =
     (let codes = get_opcodes a b;
          codes = (if codes = [] then [(Equal, 0, 1, 0, 1)] else codes)
      in group_loop n (fix_last n (fix_first n codes)) [] [])"

text \<open>The slice \<open>xs[i1:i2]\<close> for \<open>0 \<le> i1\<close> and \<open>0 \<le> i2\<close>.\<close>

definition slice :: "'a list \<Rightarrow> nat \<Rightarrow> nat \<Rightarrow> 'a list" where
  "slice xs i1 i2 = take (i2 - i1) (drop i1 xs)"

definition format_range_unified :: "nat \<Rightarrow> nat \<Rightarrow> pystr" where
  "format_range_unified start stop =
     (let beginning = start + 1; len = stop - start in
      if len = 1 then str_nat beginning
      else str_nat (if len = 0 then beginning - 1 else beginning) @ py '','' @ str_nat len)"

definition op_lines :: "pystr list \<Rightarrow> pystr list \<Rightarrow> opcode \<Rightarrow> pystr list" where
  "op_lines a b opc =
     (case opc of (tag, i1, i2, j1, j2) \<Rightarrow>
        if tag = Equal then map (\<lambda>line. py '' '' @ line) (slice a i1 i2)
        else (if tag \<in> {Replace, Delete} then map (\<lambda>line. py ''-'' @ line) (slice a i1 i2) else []) @
             (if tag \<in> {Replace, Insert} then map (\<lambda>line. py ''+'' @ line) (slice b j1 j2) else []))"

text \<open>
  One hunk: the \<open>@@\<close> line from the first and the last opcode of the group (a group
  that is yielded is never empty), then the lines of each opcode.
\<close>

definition hunk :: "pystr list \<Rightarrow> pystr list \<Rightarrow> pystr \<Rightarrow> opcode list \<Rightarrow> pystr list" where
  "hunk a b lineterm grp =
     (case (hd grp, last grp) of
        ((tag, f1, f2, f3, f4), (tag', l1, l2, l3, l4)) \<Rightarrow>
          (py ''@@ -'' @ format_range_unified f1 l2 @ py '' +'' @ format_range_unified f3 l4
             @ py '' @@'' @ lineterm)
          # concat (map (op_lines a b) grp))"

text \<open>
  \<open>unified_diff(a, b, fromfile, tofile, lineterm=lineterm)\<close> with the default \<open>n = 3\<close>
  and no file dates; the two header lines are produced before the first hunk only.
\<close>

definition unified_diff :: "pystr list \<Rightarrow> pystr list \<Rightarrow> pystr \<Rightarrow> pystr \<Rightarrow> pystr \<Rightarrow> pystr list" where
  "unified_diff a b fromfile tofile lineterm =
     (case get_grouped_opcodes a b 3 of
        [] \<Rightarrow> []
      | groups \<Rightarrow>
          [py ''--- '' @ fromfile @ lineterm, py ''+++ '' @ tofile @ lineterm]
          @ concat (map (hunk a b lineterm) groups))"

section \<open>The tracker\<close>

subsection \<open>Log, exceptions, configuration, environment\<close>

text \<open>
  Every \<open>logging.info\<close>, \<open>logging.warning\<close> and \<open>logging.error\<close> call appends one
  entry to the log. The time stamps of the log format are not modelled.
\<close>

datatype level = INFO | WARNING | ERROR

type_synonym log_entry = "level \<times> pystr"

text \<open>
  An exception is its class and its message \<open>str(e)\<close>. All classes here derive from
  \<open>Exception\<close>, so \<open>except Exception\<close> catches each of them. \<open>KeyboardInterrupt\<close>
  does not derive from \<open>Exception\<close>; it is modelled where the daemon loop sleeps.
\<close>

datatype exc_class =
  KeyError | UnboundLocalError | ValueError | FileNotFoundError | OSError
  | UnicodeEncodeError | OtherException

type_synonym exc = "exc_class \<times> pystr"

text \<open>
  The configuration is the dictionary read from the YAML file. The sections that every
  cycle reads are typed fields; the section of a mode is optional, as a file written for
  one mode may leave the other out, and reading a missing section raises \<open>KeyError\<close>.
  Of the SSH section the fields that decide what the code does and logs are kept; the
  device type, user name, port, password and key file only parametrise the connection,
  whose outcome is given by the environment. \<open>NETMIKO_AVAILABLE\<close> is a module constant
  set once when the module is imported; it is kept with the configuration, since both are
  fixed before the first cycle and are the same in every cycle.
\<close>

record ssh_config =
  ssh_enabled :: "bool option"
  ssh_host :: pystr
  ssh_default_command :: "pystr option"

record local_config =
  local_command :: pystr

record config =
  netmiko_available :: bool
  mode :: pystr
  ssh_config :: "ssh_config option"
  local_config :: "local_config option"
  check_timeout :: nat
  interval_seconds :: int
  store_previous :: bool
  snapshot_file :: pystr
  statistics_enabled :: bool
  collect_traffic :: bool
  collect_connections :: bool
  collect_ports :: bool

text \<open>
  What the world outside the program answers during one cycle: the outcome of the SSH
  session, of the local command, of each file operation and of each \<open>psutil\<close> call.
  The lines that the statistics step logs from the \<open>psutil\<close> data are given rendered.
\<close>

datatype ssh_outcome =
  ConnectFailed exc | SendFailed exc | DisconnectFailed exc | SshOutput pystr

datatype local_outcome =
  Completed int pystr pystr | TimeoutExpired | RunFailed exc

record env =
  ssh_session :: ssh_outcome
  local_run :: local_outcome
  read_error :: "exc option"
  makedirs_error :: "exc option"
  open_error :: "exc option"
  write_error :: "(exc \<times> nat) option"
  net_io_counters :: "exc + pystr list"
  net_connections :: "exc + pystr list \<times> pystr list"
  net_if_stats :: "exc + pystr list"

text \<open>
  The state that a cycle reads and writes: the text files of the file system, by path,
  and the log.
\<close>

record state =
  fs :: "pystr \<rightharpoonup> pystr"
  log :: "log_entry list"

definition logging :: "level \<Rightarrow> pystr \<Rightarrow> state \<Rightarrow> state" where
  "logging lvl msg st = st\<lparr>log := log st @ [(lvl, msg)]\<rparr>"

definition str_int :: "int \<Rightarrow> pystr" where
  "str_int i = (if i < 0 then py ''-'' @ str_nat (nat (- i)) else str_nat (nat i))"

subsection \<open>Acquisition\<close>

definition get_routes_ssh :: "config \<Rightarrow> env \<Rightarrow> state \<Rightarrow> (exc + pystr option) \<times> state" where
  "get_routes_ssh cfg ev st =
     (if \<not> netmiko_available cfg then
        (Inr None, logging ERROR (py ''Netmiko not installed. Install with: pip install netmiko'') st)
      else case ssh_config cfg of
        None \<Rightarrow> (Inl (KeyError, [39] @ py ''ssh_config'' @ [39]), st)
      | Some ssh \<Rightarrow>
          if \<not> (case ssh_enabled ssh of None \<Rightarrow> False | Some e \<Rightarrow> e) then
            (Inr None, logging ERROR (py ''SSH mode selected but not enabled in config'') st)
          else
            (let st1 = logging INFO (py ''Connecting to router '' @ ssh_host ssh @ py ''...'') st;
                 command = (case ssh_default_command ssh of
                              None \<Rightarrow> py ''show ip route'' | Some c \<Rightarrow> c);
                 st2 = logging INFO (py ''Executing command: '' @ command) st1;
                 failed = (\<lambda>e s. (Inr None, logging ERROR (py ''SSH connection failed: '' @ snd e) s))
             in case ssh_session ev of
                  ConnectFailed e \<Rightarrow> failed e st1
                | SendFailed e \<Rightarrow> failed e st2
                | DisconnectFailed e \<Rightarrow> failed e st2
                | SshOutput output \<Rightarrow>
                    (Inr (Some output),
                     logging INFO (py ''Successfully retrieved routing table from router'') st2)))"

definition get_routes_local :: "config \<Rightarrow> env \<Rightarrow> state \<Rightarrow> (exc + pystr option) \<times> state" where
  "get_routes_local cfg ev st =
     (case local_config cfg of
        None \<Rightarrow> (Inl (KeyError, [39] @ py ''local_config'' @ [39]), st)
      | Some lc \<Rightarrow>
          (case local_run ev of
             Completed returncode stdout stderr \<Rightarrow>
               if returncode = 0 then
                 (Inr (Some stdout), logging INFO (py ''Successfully retrieved local routing table'') st)
               else
                 (Inr None,
                  logging ERROR (py ''Error: '' @ stderr)
                    (logging ERROR (py ''Command failed with return code '' @ str_int returncode) st))
           | TimeoutExpired \<Rightarrow>
               (Inr None,
                logging ERROR (py ''Command timed out after '' @ str_nat (check_timeout cfg)
                                 @ py '' seconds'') st)
           | RunFailed e \<Rightarrow>
               (Inr None, logging ERROR (py ''Error executing local command: '' @ snd e) st)))"

definition check_routes :: "config \<Rightarrow> env \<Rightarrow> state \<Rightarrow> (exc + pystr option) \<times> state" where
  "check_routes cfg ev st =
     (if mode cfg = py ''ssh'' then get_routes_ssh cfg ev st
      else if mode cfg = py ''local'' then get_routes_local cfg ev st
      else (Inr None,
            logging ERROR (py ''Invalid mode: '' @ mode cfg @ py ''. Must be '' @ [39] @ py ''ssh''
                             @ [39] @ py '' or '' @ [39] @ py ''local'' @ [39]) st))"

subsection \<open>The snapshot file\<close>

text \<open>
  Reading a text file with the default \<open>newline=None\<close> translates CR LF and a lone
  CR to LF.
\<close>

fun universal_newlines :: "pystr \<Rightarrow> pystr" where
  "universal_newlines [] = []"
| "universal_newlines (c # cs) =
     (if c = 13 then
        (if cs \<noteq> [] \<and> hd cs = 10 then 10 # universal_newlines (tl cs)
         else 10 # universal_newlines cs)
      else c # universal_newlines cs)"

definition load_previous_snapshot :: "config \<Rightarrow> env \<Rightarrow> state \<Rightarrow> pystr option \<times> state" where
  "load_previous_snapshot cfg ev st =
     (if \<not> store_previous cfg then (None, st)
      else case fs st (snapshot_file cfg) of
        Some content \<Rightarrow>
          (case read_error ev of
             None \<Rightarrow> (Some (universal_newlines content), st)
           | Some e \<Rightarrow>
               (None, logging WARNING (py ''Could not load previous snapshot: '' @ snd e) st))
      | None \<Rightarrow> (None, st))"

text \<open>\<open>os.path.dirname\<close> of \<open>posixpath\<close>; 47 is the slash.\<close>

definition dirname :: "pystr \<Rightarrow> pystr" where
  "dirname p =
     (let head = rev (dropWhile (\<lambda>c. c \<noteq> 47) (rev p)) in
      if head \<noteq> [] \<and> head \<noteq> replicate (length head) 47
      then rev (dropWhile (\<lambda>c. c = 47) (rev head))
      else head)"

text \<open>
  \<open>os.makedirs(name, exist_ok=True)\<close>: for the empty path \<open>mkdir\<close> fails with
  \<open>FileNotFoundError\<close> and the path is not a directory, so the error is raised; for
  any other path the outcome is the environment's.
\<close>

definition makedirs :: "env \<Rightarrow> pystr \<Rightarrow> exc + unit" where
  "makedirs ev name =
     (if name = []
      then Inl (FileNotFoundError, py ''[Errno 2] No such file or directory: '' @ [39, 39])
      else case makedirs_error ev of Some e \<Rightarrow> Inl e | None \<Rightarrow> Inr ())"

text \<open>
  The body of the \<open>try\<close> in \<open>save_snapshot\<close>. \<open>open(snapshot_file, 'w')\<close> either
  fails and leaves the file as it is, or truncates it; \<open>f.write(routes)\<close> and the
  closing of the file either store the whole text or raise after some prefix of it has
  reached the file.
\<close>

definition save_snapshot_try :: "config \<Rightarrow> env \<Rightarrow> pystr \<Rightarrow> state \<Rightarrow> (exc + unit) \<times> state" where
  "save_snapshot_try cfg ev routes st =
     (let snapshot_file = snapshot_file cfg in
      case makedirs ev (dirname snapshot_file) of
        Inl e \<Rightarrow> (Inl e, st)
      | Inr _ \<Rightarrow>
          (case open_error ev of
             Some e \<Rightarrow> (Inl e, st)
           | None \<Rightarrow>
               (let st1 = st\<lparr>fs := (fs st)(snapshot_file \<mapsto> [])\<rparr> in
                case write_error ev of
                  Some (e, n) \<Rightarrow> (Inl e, st1\<lparr>fs := (fs st1)(snapshot_file \<mapsto> take n routes)\<rparr>)
                | None \<Rightarrow> (Inr (), st1\<lparr>fs := (fs st1)(snapshot_file \<mapsto> routes)\<rparr>))))"

definition save_snapshot :: "config \<Rightarrow> env \<Rightarrow> pystr \<Rightarrow> state \<Rightarrow> (exc + unit) \<times> state" where
  "save_snapshot cfg ev routes st =
     (if \<not> store_previous cfg then (Inr (), st)
      else case save_snapshot_try cfg ev routes st of
        (Inl e, st') \<Rightarrow> (Inr (), logging WARNING (py ''Could not save snapshot: '' @ snd e) st')
      | (Inr u, st') \<Rightarrow> (Inr u, st'))"

subsection \<open>Comparison\<close>

text \<open>
  The values that \<open>compare_and_log_changes\<close> computes: whether it returned at the
  equality test, and the local variables \<open>diff_output\<close>, \<open>added\<close> and \<open>removed\<close>.
  After the early return none of them is computed and nothing of them is logged; the
  report has them empty.
\<close>

record change_report =
  unchanged :: bool
  diffLines :: "pystr list"
  added :: "pystr set"
  removed :: "pystr set"

definition compare :: "pystr \<Rightarrow> pystr \<Rightarrow> change_report" where
  "compare previous current =
     (if previous = current then
        \<lparr>unchanged = True, diffLines = [], added = {}, removed = {}\<rparr>
      else
        (let previous_lines = splitlines True previous;
             current_lines = splitlines True current;
             diff_output = unified_diff previous_lines current_lines
                             (py ''Previous Routes'') (py ''Current Routes'') [];
             previous_set = set (splitlines False previous);
             current_set = set (splitlines False current)
         in \<lparr>unchanged = False, diffLines = diff_output,
             added = current_set - previous_set, removed = previous_set - current_set\<rparr>))"

text \<open>
  The routes that a loop \<open>for route in sorted(...)\<close> logs: the sorted set, without the
  lines for which \<open>route.strip()\<close> is empty.
\<close>

definition reported :: "pystr set \<Rightarrow> pystr list" where
  "reported routes = filter (\<lambda>route. strip route \<noteq> []) (sorted_list_of_set routes)"

definition compare_log :: "change_report \<Rightarrow> log_entry list" where
  "compare_log r =
     (if unchanged r then [(INFO, py ''No routing table changes detected'')]
      else
        [(INFO, py ''Route change detected!''), (INFO, replicate 60 45)]
        @ (if diffLines r \<noteq> []
           then (INFO, py ''Routing table diff:'') # map (\<lambda>line. (INFO, rstrip line)) (diffLines r)
           else [])
        @ [(INFO, replicate 60 45)]
        @ (if added r \<noteq> {}
           then (INFO, py ''Added routes:'')
                # map (\<lambda>route. (INFO, py ''  + '' @ route)) (reported (added r))
           else [])
        @ (if removed r \<noteq> {}
           then (INFO, py ''Removed routes:'')
                # map (\<lambda>route. (INFO, py ''  - '' @ route)) (reported (removed r))
           else [])
        @ [(INFO, replicate 60 61)])"

definition compare_and_log_changes :: "pystr \<Rightarrow> pystr \<Rightarrow> state \<Rightarrow> state" where
  "compare_and_log_changes previous current st =
     st\<lparr>log := log st @ compare_log (compare previous current)\<rparr>"

subsection \<open>Statistics\<close>

definition log_lines :: "level \<Rightarrow> pystr list \<Rightarrow> state \<Rightarrow> state" where
  "log_lines lvl msgs st = st\<lparr>log := log st @ map (\<lambda>msg. (lvl, msg)) msgs\<rparr>"

text \<open>
  Statements in sequence: when the first raises, the rest is skipped and the exception
  goes on to the enclosing handler.
\<close>

definition then_do ::
  "(exc + 'a) \<times> state \<Rightarrow> ('a \<Rightarrow> state \<Rightarrow> (exc + 'b) \<times> state) \<Rightarrow> (exc + 'b) \<times> state" where
  "then_do r f = (case r of (Inl e, st) \<Rightarrow> (Inl e, st) | (Inr v, st) \<Rightarrow> f v st)"

text \<open>
  The four steps of the \<open>try\<close> in \<open>collect_network_stats\<close>. The variable
  \<open>connections\<close> is bound only when \<open>collect_connections\<close> is set (here it then
  holds the lines that the ports step logs from it), so reading it for the ports raises
  \<open>UnboundLocalError\<close> otherwise.
\<close>

definition stats_traffic :: "config \<Rightarrow> env \<Rightarrow> state \<Rightarrow> (exc + unit) \<times> state" where
  "stats_traffic cfg ev st =
     (if collect_traffic cfg then
        (case net_io_counters ev of
           Inl e \<Rightarrow> (Inl e, st)
         | Inr lines \<Rightarrow> (Inr (), log_lines INFO (py ''Network Traffic:'' # lines) st))
      else (Inr (), st))"

definition stats_connections :: "config \<Rightarrow> env \<Rightarrow> state \<Rightarrow> (exc + pystr list option) \<times> state" where
  "stats_connections cfg ev st =
     (if collect_connections cfg then
        (case net_connections ev of
           Inl e \<Rightarrow> (Inl e, st)
         | Inr (connection_lines, port_lines) \<Rightarrow>
             (Inr (Some port_lines), log_lines INFO connection_lines st))
      else (Inr None, st))"

definition stats_ports :: "config \<Rightarrow> pystr list option \<Rightarrow> state \<Rightarrow> (exc + unit) \<times> state" where
  "stats_ports cfg connections st =
     (if collect_ports cfg then
        (case connections of
           None \<Rightarrow>
             (Inl (UnboundLocalError,
                   py ''cannot access local variable '' @ [39] @ py ''connections'' @ [39]
                     @ py '' where it is not associated with a value''), st)
         | Some port_lines \<Rightarrow> (Inr (), log_lines INFO port_lines st))
      else (Inr (), st))"

definition stats_interfaces :: "env \<Rightarrow> state \<Rightarrow> (exc + unit) \<times> state" where
  "stats_interfaces ev st =
     (case net_if_stats ev of
        Inl e \<Rightarrow> (Inl e, st)
      | Inr lines \<Rightarrow> (Inr (), log_lines INFO ((10 # py ''Network Interfaces:'') # lines) st))"

definition collect_network_stats_try :: "config \<Rightarrow> env \<Rightarrow> state \<Rightarrow> (exc + unit) \<times> state" where
  "collect_network_stats_try cfg ev st =
     then_do (stats_traffic cfg ev st) (\<lambda>_ st1.
     then_do (stats_connections cfg ev st1) (\<lambda>connections st2.
     then_do (stats_ports cfg connections st2) (\<lambda>_ st3.
     stats_interfaces ev st3)))"

definition collect_network_stats :: "config \<Rightarrow> env \<Rightarrow> state \<Rightarrow> (exc + unit) \<times> state" where
  "collect_network_stats cfg ev st =
     (if \<not> statistics_enabled cfg then (Inr (), st)
      else
        (let st1 = logging INFO (replicate 60 45) (logging INFO (py ''Network Statistics:'') st);
             st2 = (case collect_network_stats_try cfg ev st1 of
                      (Inl e, st') \<Rightarrow>
                        logging ERROR (py ''Error collecting network statistics: '' @ snd e) st'
                    | (Inr _, st') \<Rightarrow> st')
         in (Inr (), logging INFO (replicate 60 61) st2)))"

subsection \<open>One cycle\<close>

definition run_once :: "config \<Rightarrow> env \<Rightarrow> state \<Rightarrow> (exc + bool) \<times> state" where
  "run_once cfg ev st =
     (case check_routes cfg ev (logging INFO (py ''Starting single route check...'') st) of
        (Inl e, st1) \<Rightarrow> (Inl e, st1)
      | (Inr None, st1) \<Rightarrow> (Inr False, logging ERROR (py ''Failed to retrieve routing table'') st1)
      | (Inr (Some current_routes), st1) \<Rightarrow>
          (case load_previous_snapshot cfg ev st1 of
             (previous_routes, st2) \<Rightarrow>
               (let st3 =
                      (case previous_routes of
                         None \<Rightarrow>
                           logging INFO
                             (py ''Current routing table has ''
                                @ str_nat (length (splitlines False current_routes))
                                @ py '' entries'')
                             (logging INFO (py ''No previous snapshot found - this is the first run'') st2)
                       | Some previous \<Rightarrow> compare_and_log_changes previous current_routes st2)
                in case collect_network_stats cfg ev st3 of
                     (Inl e, st4) \<Rightarrow> (Inl e, st4)
                   | (Inr _, st4) \<Rightarrow>
                       (case save_snapshot cfg ev current_routes st4 of
                          (Inl e, st5) \<Rightarrow> (Inl e, st5)
                        | (Inr _, st5) \<Rightarrow> (Inr True, logging INFO (py ''Route check completed'') st5)))))"

subsection \<open>The daemon loop\<close>





section \<open>Example inputs\<close>

definition example_config :: config where
  "example_config =
     \<lparr>netmiko_available = False, mode = py ''local'', ssh_config = None,
      local_config = Some \<lparr>local_command = py ''ip route''\<rparr>,
      check_timeout = 30, interval_seconds = 60, store_previous = True,
      snapshot_file = py ''out/snap'', statistics_enabled = True,
      collect_traffic = False, collect_connections = False, collect_ports = True\<rparr>"

definition example_env :: env where
  "example_env =
     \<lparr>ssh_session = SshOutput [],
      local_run = Completed 0 (py ''a via eth0\<newline>'') [],
      read_error = None, makedirs_error = None, open_error = None, write_error = None,
      net_io_counters = Inr [], net_connections = Inr ([], []), net_if_stats = Inr []\<rparr>"

definition example_state :: state where
  "example_state = \<lparr>fs = Map.empty, log = []\<rparr>"

definition example_state_old :: state where
  "example_state_old = \<lparr>fs = [py ''out/snap'' \<mapsto> py ''b via eth1\<newline>''], log = []\<rparr>"

lemmas example_defs =
  example_config_def example_env_def example_state_def example_state_old_def

section \<open>Properties of the steps\<close>

lemma fs_logging: "fs (logging lvl msg st) = fs st"
  by (simp add: logging_def)

lemma fs_log_lines: "fs (log_lines lvl msgs st) = fs st"
  by (simp add: log_lines_def)

lemma fs_get_routes_ssh: "fs (snd (get_routes_ssh cfg ev st)) = fs st"
  by (simp add: get_routes_ssh_def Let_def fs_logging split: option.splits ssh_outcome.splits)

lemma fs_get_routes_local: "fs (snd (get_routes_local cfg ev st)) = fs st"
  by (simp add: get_routes_local_def fs_logging split: option.splits local_outcome.splits)

lemma fs_check_routes: "fs (snd (check_routes cfg ev st)) = fs st"
  by (simp add: check_routes_def fs_get_routes_ssh fs_get_routes_local fs_logging)

lemma fst_get_routes_ssh: "fst (get_routes_ssh cfg ev st) = fst (get_routes_ssh cfg ev st')"
  by (simp add: get_routes_ssh_def Let_def split: option.splits ssh_outcome.splits)

lemma fst_get_routes_local: "fst (get_routes_local cfg ev st) = fst (get_routes_local cfg ev st')"
  by (simp add: get_routes_local_def split: option.splits local_outcome.splits)

lemma fst_check_routes: "fst (check_routes cfg ev st) = fst (check_routes cfg ev st')"
  using fst_get_routes_ssh fst_get_routes_local by (simp add: check_routes_def)

lemma rstrip_Nil_iff: "rstrip s = [] \<longleftrightarrow> (\<forall>c\<in>set s. isspace c)"
  by (simp add: rstrip_def)

lemma strip_Nil_iff: "strip s = [] \<longleftrightarrow> (\<forall>c\<in>set s. isspace c)"
proof
  assume "strip s = []"
  then have a: "\<forall>c\<in>set (dropWhile isspace s). isspace c"
    by (simp add: strip_def rstrip_Nil_iff)
  show "\<forall>c\<in>set s. isspace c"
  proof (rule ccontr)
    assume "\<not> (\<forall>c\<in>set s. isspace c)"
    then have "dropWhile isspace s \<noteq> []" by simp
    then have "\<not> isspace (hd (dropWhile isspace s))" by (rule hd_dropWhile)
    moreover have "hd (dropWhile isspace s) \<in> set (dropWhile isspace s)"
      using \<open>dropWhile isspace s \<noteq> []\<close> by simp
    ultimately show False using a by blast
  qed
next
  assume "\<forall>c\<in>set s. isspace c"
  then have d: "dropWhile isspace s = []" by simp
  show "strip s = []" unfolding strip_def rstrip_def d by simp
qed

lemma finite_compare: "finite (added (compare A B))" "finite (removed (compare A B))"
  by (simp_all add: compare_def Let_def)

lemma fs_load_previous_snapshot: "fs (snd (load_previous_snapshot cfg ev st)) = fs st"
  by (simp add: load_previous_snapshot_def fs_logging split: option.splits)

lemma fst_load_previous_snapshot:
  "fs st = fs st' \<Longrightarrow> fst (load_previous_snapshot cfg ev st) = fst (load_previous_snapshot cfg ev st')"
  by (simp add: load_previous_snapshot_def split: option.splits)

lemma fs_compare_and_log_changes: "fs (compare_and_log_changes previous current st) = fs st"
  by (simp add: compare_and_log_changes_def)

lemma fs_then_do:
  "fs (snd r) = F \<Longrightarrow> (\<And>v s. fs s = F \<Longrightarrow> fs (snd (f v s)) = F) \<Longrightarrow> fs (snd (then_do r f)) = F"
  by (cases r) (auto simp: then_do_def split: sum.splits)

lemma fs_stats_traffic: "fs (snd (stats_traffic cfg ev st)) = fs st"
  by (simp add: stats_traffic_def fs_log_lines split: sum.splits)

lemma fs_stats_connections: "fs (snd (stats_connections cfg ev st)) = fs st"
  by (simp add: stats_connections_def fs_log_lines split: sum.splits prod.splits)

lemma fs_stats_ports: "fs (snd (stats_ports cfg c st)) = fs st"
  by (simp add: stats_ports_def fs_log_lines split: option.splits)

lemma fs_stats_interfaces: "fs (snd (stats_interfaces ev st)) = fs st"
  by (simp add: stats_interfaces_def fs_log_lines split: sum.splits)

lemma fs_collect_network_stats_try: "fs (snd (collect_network_stats_try cfg ev st)) = fs st"
  unfolding collect_network_stats_try_def
  by (intro fs_then_do) (simp_all add: fs_stats_traffic fs_stats_connections fs_stats_ports fs_stats_interfaces)



lemma fst_collect_network_stats: "fst (collect_network_stats cfg ev st) = Inr ()"
  by (simp add: collect_network_stats_def Let_def)

lemma fs_collect_network_stats: "fs (snd (collect_network_stats cfg ev st)) = fs st"
proof (cases "statistics_enabled cfg")
  case False
  then show ?thesis by (simp add: collect_network_stats_def)
next
  case True
  define st1 where "st1 = logging INFO (replicate 60 45) (logging INFO (py ''Network Statistics:'') st)"
  obtain r st' where t: "collect_network_stats_try cfg ev st1 = (r, st')"
    by (cases "collect_network_stats_try cfg ev st1")
  then have "fs st' = fs st1" using fs_collect_network_stats_try[of cfg ev st1] by simp
  then show ?thesis
    using True t by (cases r) (simp_all add: collect_network_stats_def Let_def st1_def fs_logging)
qed

lemma fst_save_snapshot: "fst (save_snapshot cfg ev routes st) = Inr ()"
proof (cases "save_snapshot_try cfg ev routes st")
  case (Pair r st')
  then show ?thesis by (cases r) (simp_all add: save_snapshot_def)
qed

lemma fs_save_snapshot_try:
  "fs (snd (save_snapshot_try cfg ev routes st)) =
     (case makedirs ev (dirname (snapshot_file cfg)) of
        Inl e \<Rightarrow> fs st
      | Inr _ \<Rightarrow>
          (case open_error ev of
             Some e \<Rightarrow> fs st
           | None \<Rightarrow>
               (case write_error ev of
                  Some (e, n) \<Rightarrow> (fs st)(snapshot_file cfg \<mapsto> take n routes)
                | None \<Rightarrow> (fs st)(snapshot_file cfg \<mapsto> routes))))"
proof (cases "makedirs ev (dirname (snapshot_file cfg))")
  case (Inl e)
  then show ?thesis by (simp add: save_snapshot_try_def)
next
  case (Inr u)
  show ?thesis
  proof (cases "open_error ev")
    case (Some e)
    then show ?thesis using Inr by (simp add: save_snapshot_try_def)
  next
    case None
    show ?thesis
    proof (cases "write_error ev")
      case None
      then show ?thesis using Inr \<open>open_error ev = None\<close> by (simp add: save_snapshot_try_def)
    next
      case (Some en)
      then show ?thesis using Inr \<open>open_error ev = None\<close>
        by (cases en) (simp add: save_snapshot_try_def)
    qed
  qed
qed

lemma fs_save_snapshot:
  "fs (snd (save_snapshot cfg ev routes st)) =
     (if store_previous cfg then fs (snd (save_snapshot_try cfg ev routes st)) else fs st)"
proof (cases "save_snapshot_try cfg ev routes st")
  case (Pair r st')
  then show ?thesis by (cases r) (simp_all add: save_snapshot_def fs_logging)
qed

lemma fs_save_snapshot_cong:
  "fs st = fs st' \<Longrightarrow>
   fs (snd (save_snapshot cfg ev routes st)) = fs (snd (save_snapshot cfg ev routes st'))"
  by (simp only: fs_save_snapshot fs_save_snapshot_try)

lemma fs_save_snapshot_ok:
  "store_previous cfg \<Longrightarrow> makedirs ev (dirname (snapshot_file cfg)) = Inr () \<Longrightarrow>
   open_error ev = None \<Longrightarrow> write_error ev = None \<Longrightarrow>
   fs (snd (save_snapshot cfg ev routes st)) = (fs st)(snapshot_file cfg \<mapsto> routes)"
  by (simp add: fs_save_snapshot fs_save_snapshot_try)

lemma fs_save_snapshot_disabled:
  "\<not> store_previous cfg \<Longrightarrow> save_snapshot cfg ev routes st = (Inr (), st)"
  by (simp add: save_snapshot_def)

text \<open>What a cycle does once the routing table has been acquired.\<close>

lemma run_once_acquired:
  assumes "check_routes cfg ev (logging INFO (py ''Starting single route check...'') st) = (Inr (Some cur), st1)"
      and "load_previous_snapshot cfg ev st1 = (prev, st2)"
  shows "run_once cfg ev st =
           (Inr True,
            logging INFO (py ''Route check completed'')
              (snd (save_snapshot cfg ev cur
                 (snd (collect_network_stats cfg ev
                    (case prev of
                       None \<Rightarrow>
                         logging INFO
                           (py ''Current routing table has '' @ str_nat (length (splitlines False cur))
                              @ py '' entries'')
                           (logging INFO (py ''No previous snapshot found - this is the first run'') st2)
                     | Some previous \<Rightarrow> compare_and_log_changes previous cur st2))))))"
proof -
  let ?st3 = "case prev of
                None \<Rightarrow>
                  logging INFO
                    (py ''Current routing table has '' @ str_nat (length (splitlines False cur))
                       @ py '' entries'')
                    (logging INFO (py ''No previous snapshot found - this is the first run'') st2)
              | Some previous \<Rightarrow> compare_and_log_changes previous cur st2"
  obtain st4 where s4: "collect_network_stats cfg ev ?st3 = (Inr (), st4)"
    using fst_collect_network_stats[of cfg ev ?st3]
    by (cases "collect_network_stats cfg ev ?st3") auto
  obtain st5 where s5: "save_snapshot cfg ev cur st4 = (Inr (), st5)"
    using fst_save_snapshot[of cfg ev cur st4]
    by (cases "save_snapshot cfg ev cur st4") auto
  show ?thesis
    using assms s4 s5 by (simp add: run_once_def Let_def)
qed

lemma run_once_acquired_fs:
  assumes "fst (check_routes cfg ev s0) = Inr (Some cur)"
  shows "fst (run_once cfg ev st) = Inr True"
    and "fs (snd (run_once cfg ev st)) = fs (snd (save_snapshot cfg ev cur st))"
proof -
  define st0 where "st0 = logging INFO (py ''Starting single route check...'') st"
  have "fst (check_routes cfg ev st0) = Inr (Some cur)"
    using assms fst_check_routes[of cfg ev st0 s0] by simp
  then obtain st1 where c: "check_routes cfg ev st0 = (Inr (Some cur), st1)"
    by (cases "check_routes cfg ev st0") auto
  obtain prev st2 where l: "load_previous_snapshot cfg ev st1 = (prev, st2)"
    by (cases "load_previous_snapshot cfg ev st1")
  have f1: "fs st1 = fs st" using fs_check_routes[of cfg ev st0] c by (simp add: st0_def fs_logging)
  have f2: "fs st2 = fs st" using fs_load_previous_snapshot[of cfg ev st1] l f1 by simp
  note r = run_once_acquired[OF c[unfolded st0_def] l]
  show "fst (run_once cfg ev st) = Inr True" using r by simp
  define st3 where "st3 = (case prev of
        None \<Rightarrow>
          logging INFO
            (py ''Current routing table has '' @ str_nat (length (splitlines False cur))
               @ py '' entries'')
            (logging INFO (py ''No previous snapshot found - this is the first run'') st2)
      | Some previous \<Rightarrow> compare_and_log_changes previous cur st2)"
  have f3: "fs st3 = fs st"
    unfolding st3_def by (cases prev) (simp_all add: fs_logging fs_compare_and_log_changes f2)
  have f4: "fs (snd (collect_network_stats cfg ev st3)) = fs st"
    using f3 by (simp add: fs_collect_network_stats)
  show "fs (snd (run_once cfg ev st)) = fs (snd (save_snapshot cfg ev cur st))"
    unfolding r st3_def[symmetric] using fs_save_snapshot_cong[OF f4] by (simp add: fs_logging)
qed



lemma dirname_no_slash: "47 \<notin> set p \<Longrightarrow> dirname p = []"
proof -
  assume "47 \<notin> set p"
  then have "\<forall>c\<in>set (rev p). c \<noteq> 47" by auto
  then have "dropWhile (\<lambda>c. c \<noteq> 47) (rev p) = []" by simp
  then show ?thesis by (simp add: dirname_def)
qed






subsection \<open>The example inputs evaluated\<close>

lemma example_acquired:
  "fst (check_routes example_config example_env s) = Inr (Some (py ''a via eth0\<newline>''))"
  by (simp add: example_defs check_routes_def get_routes_local_def py_def)

lemma example_timeout:
  "fst (check_routes example_config (example_env\<lparr>local_run := TimeoutExpired\<rparr>) s) = Inr None"
  by (simp add: example_defs check_routes_def get_routes_local_def py_def)

lemma example_dirname: "dirname (snapshot_file example_config) = py ''out''"
  by (simp add: example_defs dirname_def py_def)

lemma example_makedirs: "makedirs example_env (dirname (snapshot_file example_config)) = Inr ()"
  by (simp add: example_dirname makedirs_def) (simp add: example_defs py_def)

lemma example_no_netmiko:
  "fst (check_routes (example_config\<lparr>mode := py ''ssh''\<rparr>) example_env s) = Inr None"
  by (simp add: example_defs check_routes_def get_routes_ssh_def)


lemma example_added:
  "added (compare (py ''a\<newline>'') (py ''a\<newline> \<newline>b\<newline>'')) = {[32], [98]}"
  by (simp add: compare_def Let_def splitlines_def is_linebreak_def py_def)

lemma example_removed:
  "removed (compare (py ''a\<newline>'') (py ''a\<newline> \<newline>b\<newline>'')) = {}"
  by (simp add: compare_def Let_def splitlines_def is_linebreak_def py_def)

section \<open>Properties of the unified diff\<close>

subsection \<open>The matching blocks agree with both lists and follow one another\<close>

text \<open>
  A block \<open>(i, j, k)\<close> is valid when it lies in both lists and the \<open>k\<close> elements from
  \<open>a[i]\<close> equal those from \<open>b[j]\<close>. A rectangle \<open>(alo, ahi, blo, bhi)\<close> is before
  another when it ends, in both lists, where the other starts or earlier.
\<close>

definition blk_valid :: "'a list \<Rightarrow> 'a list \<Rightarrow> nat \<times> nat \<times> nat \<Rightarrow> bool" where
  "blk_valid a b blk \<longleftrightarrow>
     (case blk of (i, j, k) \<Rightarrow>
        i + k \<le> length a \<and> j + k \<le> length b \<and> (\<forall>t<k. a ! (i + t) = b ! (j + t)))"

definition rect_of :: "nat \<times> nat \<times> nat \<Rightarrow> nat \<times> nat \<times> nat \<times> nat" where
  "rect_of blk = (case blk of (i, j, k) \<Rightarrow> (i, i + k, j, j + k))"

definition before :: "nat \<times> nat \<times> nat \<times> nat \<Rightarrow> nat \<times> nat \<times> nat \<times> nat \<Rightarrow> bool" where
  "before r r' \<longleftrightarrow>
     (case r of (alo, ahi, blo, bhi) \<Rightarrow>
        case r' of (alo', ahi', blo', bhi') \<Rightarrow> ahi \<le> alo' \<and> bhi \<le> blo')"

definition apart :: "nat \<times> nat \<times> nat \<times> nat \<Rightarrow> nat \<times> nat \<times> nat \<times> nat \<Rightarrow> bool" where
  "apart r r' \<longleftrightarrow> before r r' \<or> before r' r"

definition inside :: "nat \<times> nat \<times> nat \<times> nat \<Rightarrow> nat \<times> nat \<times> nat \<times> nat \<Rightarrow> bool" where
  "inside r r' \<longleftrightarrow>
     (case r of (alo, ahi, blo, bhi) \<Rightarrow>
        case r' of (alo', ahi', blo', bhi') \<Rightarrow>
          alo' \<le> alo \<and> ahi \<le> ahi' \<and> blo' \<le> blo \<and> bhi \<le> bhi')"

lemma apart_sym: "apart r r' = apart r' r"
  by (auto simp: apart_def)

lemma apart_inside: "apart x r \<Longrightarrow> inside n r \<Longrightarrow> apart x n"
  by (cases x; cases r; cases n) (auto simp: apart_def before_def inside_def)

lemma apart_inside': "apart r x \<Longrightarrow> inside n r \<Longrightarrow> apart n x"
  using apart_inside apart_sym by blast

text \<open>Replacing one rectangle of a list of rectangles apart by rectangles apart inside it.\<close>

lemma apart_refine:
  assumes "sorted_wrt apart (xs @ r # ys)"
      and "sorted_wrt apart (m # ns)"
      and "\<forall>n\<in>set (m # ns). inside n r"
  shows "sorted_wrt apart ((xs @ [m]) @ ns @ ys)"
proof -
  from assms(1) have
    xs: "sorted_wrt apart xs" and ys: "sorted_wrt apart ys"
    and xr: "\<forall>x\<in>set xs. apart x r" and ry: "\<forall>y\<in>set ys. apart r y"
    and xy: "\<forall>x\<in>set xs. \<forall>y\<in>set ys. apart x y"
    by (auto simp: sorted_wrt_append)
  have xn: "\<forall>x\<in>set xs. \<forall>n\<in>set (m # ns). apart x n"
    using xr assms(3) apart_inside by blast
  have ny: "\<forall>n\<in>set (m # ns). \<forall>y\<in>set ys. apart n y"
    using ry assms(3) apart_inside' by blast
  show ?thesis
    using xs ys xy xn ny assms(2)
    by (auto simp: sorted_wrt_append)
qed

lemma apart_drop:
  assumes "sorted_wrt apart (xs @ r # ys)"
  shows "sorted_wrt apart (xs @ ys)"
  using assms by (auto simp: sorted_wrt_append)

lemma gmb_loop_inv:
  assumes "\<forall>blk\<in>set mbs. blk_valid a b blk \<and> 1 \<le> snd (snd blk)"
      and "\<forall>r\<in>set queue. inside r (0, length a, 0, length b)"
      and "sorted_wrt apart (map rect_of mbs @ queue)"
  shows "(\<forall>blk\<in>set (gmb_loop a b queue mbs). blk_valid a b blk \<and> 1 \<le> snd (snd blk))
       \<and> sorted_wrt apart (map rect_of (gmb_loop a b queue mbs))"
  using assms
proof (induction a b queue mbs rule: gmb_loop.induct)
  case (1 a b matching_blocks)
  then show ?case by simp
next
  case (2 a b alo ahi blo bhi queue mbs)
  obtain i j k where f: "find_longest_match a b (chain_b b) alo ahi blo bhi = (i, j, k)"
    by (cases "find_longest_match a b (chain_b b) alo ahi blo bhi")
  have inv: "blk_inv a b alo ahi blo bhi (i, j, k)"
    using find_longest_match_inv[OF chain_b_ok, of a b alo ahi blo bhi] f by simp
  have rin: "ahi \<le> length a" "bhi \<le> length b"
    using "2.prems"(2) by (auto simp: inside_def)
  show ?case
  proof (cases "k = 0")
    case True
    have e: "gmb_loop a b ((alo, ahi, blo, bhi) # queue) mbs = gmb_loop a b queue mbs"
      using f True by simp
    have q: "\<forall>r\<in>set queue. inside r (0, length a, 0, length b)"
      using "2.prems"(2) by simp
    have s: "sorted_wrt apart (map rect_of mbs @ queue)"
      using apart_drop[OF "2.prems"(3)] .
    have z: "\<not> k \<noteq> 0" using True by simp
    show ?thesis
      unfolding e by (rule "2.IH"(2)[OF f[symmetric] refl z "2.prems"(1) q s])
  next
    case False
    then have b: "alo \<le> i" "i + k \<le> ahi" "blo \<le> j" "j + k \<le> bhi"
      and m: "\<forall>t<k. a ! (i + t) = b ! (j + t)"
      using inv by (auto simp: blk_inv_def)
    define n2 where "n2 = (if i + k < ahi \<and> j + k < bhi then [(i + k, ahi, j + k, bhi)] else [])"
    define n1 where "n1 = (if alo < i \<and> blo < j then [(alo, i, blo, j)] else [])"
    have valid: "blk_valid a b (i, j, k) \<and> 1 \<le> k"
      using b m rin False by (auto simp: blk_valid_def)
    have p1: "\<forall>blk\<in>set (mbs @ [(i, j, k)]). blk_valid a b blk \<and> 1 \<le> snd (snd blk)"
      using "2.prems"(1) valid by auto
    have ins: "\<forall>n\<in>set (rect_of (i, j, k) # n2 @ n1). inside n (alo, ahi, blo, bhi)"
      using b by (auto simp: n1_def n2_def rect_of_def inside_def)
    have "\<forall>r\<in>set (n2 @ n1). inside r (0, length a, 0, length b)"
      using b rin by (auto simp: n1_def n2_def inside_def)
    then have p2: "\<forall>r\<in>set (n2 @ n1 @ queue). inside r (0, length a, 0, length b)"
      using "2.prems"(2) by auto
    have ap: "sorted_wrt apart (rect_of (i, j, k) # n2 @ n1)"
      by (auto simp: n1_def n2_def rect_of_def apart_def before_def)
    have p3: "sorted_wrt apart (map rect_of (mbs @ [(i, j, k)]) @ n2 @ n1 @ queue)"
      using apart_refine[OF "2.prems"(3) ap ins] by simp
    have e: "gmb_loop a b ((alo, ahi, blo, bhi) # queue) mbs
          = gmb_loop a b (n2 @ n1 @ queue) (mbs @ [(i, j, k)])"
      using f False by (simp add: n1_def n2_def)
    show ?thesis
      unfolding e
      by (rule "2.IH"(1)[OF f[symmetric] refl False, folded n1_def n2_def, OF p1 p2 p3])
  qed
qed

text \<open>
  Blocks apart stay apart when the list is sorted; sorted by \<open>(i, j, k)\<close>, blocks that
  are apart and not empty follow one another in both lists.
\<close>

definition follows :: "nat \<times> nat \<times> nat \<Rightarrow> nat \<times> nat \<times> nat \<Rightarrow> bool" where
  "follows blk blk' \<longleftrightarrow> before (rect_of blk) (rect_of blk')"

lemma apart_insort:
  "sorted_wrt (\<lambda>x y. apart (rect_of x) (rect_of y)) (insort blk blks)
   = sorted_wrt (\<lambda>x y. apart (rect_of x) (rect_of y)) (blk # blks)"
proof (induction blks)
  case Nil
  then show ?case by simp
next
  case (Cons c blks)
  show ?case
  proof (cases "blk \<le> c")
    case True
    then show ?thesis by simp
  next
    case False
    then have "insort blk (c # blks) = c # insort blk blks" by simp
    then show ?thesis
      using Cons.IH apart_sym by (auto simp: set_insort_key)
  qed
qed

lemma apart_sort:
  "sorted_wrt (\<lambda>x y. apart (rect_of x) (rect_of y)) (sort blks)
   = sorted_wrt (\<lambda>x y. apart (rect_of x) (rect_of y)) blks"
  by (induction blks) (simp_all add: apart_insort)

lemma sorted_apart_follows:
  assumes "sorted blks"
      and "sorted_wrt (\<lambda>x y. apart (rect_of x) (rect_of y)) blks"
      and "\<forall>blk\<in>set blks. 1 \<le> snd (snd blk)"
  shows "sorted_wrt follows blks"
  using assms
proof (induction blks)
  case Nil
  then show ?case by simp
next
  case (Cons c blks)
  have "follows c y" if y: "y \<in> set blks" for y
  proof -
    obtain i j k where c: "c = (i, j, k)" by (cases c)
    obtain i' j' k' where y': "y = (i', j', k')" by (cases y)
    have le: "c \<le> y" using Cons.prems(1) y by simp
    have ap: "apart (rect_of c) (rect_of y)" using Cons.prems(2) y by simp
    have k: "1 \<le> k'" using Cons.prems(3) y y' by auto
    have "i \<le> i'" using le c y' by (auto simp: less_eq_prod_def)
    then have "\<not> before (rect_of y) (rect_of c)"
      using k by (auto simp: before_def rect_of_def c y')
    then show ?thesis using ap by (simp add: apart_def follows_def)
  qed
  then show ?case using Cons by simp
qed

lemma follows_same_start: "follows x (i, j, k) \<Longrightarrow> follows x (i, j, k')"
  by (cases x) (simp add: follows_def before_def rect_of_def)

lemma follows_merged: "follows (i + k, j + k, k') y \<Longrightarrow> follows (i, j, k + k') y"
  by (cases y) (simp add: follows_def before_def rect_of_def add.assoc)

lemma follows_zero: "follows (0, 0, 0) y"
  by (cases y) (simp add: follows_def before_def rect_of_def)

lemma follows_end: "blk_valid a b blk \<Longrightarrow> follows blk (length a, length b, 0)"
  by (cases blk) (simp add: follows_def before_def rect_of_def blk_valid_def)

text \<open>Merging adjacent blocks keeps them valid and in sequence.\<close>

lemma blk_valid_merge:
  assumes "blk_valid a b (i1, j1, k1)" and "blk_valid a b (i1 + k1, j1 + k1, k2)"
  shows "blk_valid a b (i1, j1, k1 + k2)"
proof -
  have "a ! (i1 + t) = b ! (j1 + t)" if "t < k1 + k2" for t
  proof (cases "t < k1")
    case True
    then show ?thesis using assms(1) by (simp add: blk_valid_def)
  next
    case False
    then have "t - k1 < k2" using that by simp
    then have "a ! (i1 + k1 + (t - k1)) = b ! (j1 + k1 + (t - k1))"
      using assms(2) by (simp add: blk_valid_def)
    then show ?thesis using False by simp
  qed
  then show ?thesis
    using assms by (simp add: blk_valid_def)
qed

lemma merge_adjacent_inv:
  assumes "sorted_wrt follows (non_adjacent @ pending # rest)"
      and "\<forall>blk\<in>set (non_adjacent @ pending # rest). blk_valid a b blk"
  shows "sorted_wrt follows (merge_adjacent rest pending non_adjacent)
       \<and> (\<forall>blk\<in>set (merge_adjacent rest pending non_adjacent). blk_valid a b blk)"
  using assms
proof (induction rest arbitrary: pending non_adjacent)
  case Nil
  obtain i1 j1 k1 where p: "pending = (i1, j1, k1)" by (cases pending)
  show ?case
    using Nil unfolding p by (auto simp: sorted_wrt_append)
next
  case (Cons nxt rest)
  obtain i1 j1 k1 where p: "pending = (i1, j1, k1)" by (cases pending)
  obtain i2 j2 k2 where n: "nxt = (i2, j2, k2)" by (cases nxt)
  show ?case
  proof (cases "i1 + k1 = i2 \<and> j1 + k1 = j2")
    case True
    have e: "merge_adjacent (nxt # rest) pending non_adjacent
             = merge_adjacent rest (i1, j1, k1 + k2) non_adjacent"
      using True by (simp add: p n)
    have v: "blk_valid a b (i1, j1, k1 + k2)"
      using blk_valid_merge[of a b i1 j1 k1 k2] Cons.prems(2) True by (simp add: p n)
    have s: "sorted_wrt follows (non_adjacent @ (i1, j1, k1 + k2) # rest)"
      using Cons.prems(1) True
      by (auto simp: sorted_wrt_append p n intro: follows_same_start follows_merged)
    have w: "\<forall>blk\<in>set (non_adjacent @ (i1, j1, k1 + k2) # rest). blk_valid a b blk"
      using Cons.prems(2) v by auto
    show ?thesis
      unfolding e by (rule Cons.IH[OF s w])
  next
    case False
    define acc where "acc = (if k1 \<noteq> 0 then non_adjacent @ [(i1, j1, k1)] else non_adjacent)"
    have e: "merge_adjacent (nxt # rest) pending non_adjacent = merge_adjacent rest (i2, j2, k2) acc"
      using False by (auto simp: p n acc_def)
    have s: "sorted_wrt follows (acc @ (i2, j2, k2) # rest)"
      using Cons.prems(1) by (auto simp: sorted_wrt_append p n acc_def)
    have w: "\<forall>blk\<in>set (acc @ (i2, j2, k2) # rest). blk_valid a b blk"
      using Cons.prems(2) by (auto simp: p n acc_def)
    show ?thesis
      unfolding e by (rule Cons.IH[OF s w])
  qed
qed

lemma get_matching_blocks_inv:
  "sorted_wrt follows (get_matching_blocks a b)
   \<and> (\<forall>blk\<in>set (get_matching_blocks a b). blk_valid a b blk)
   \<and> get_matching_blocks a b \<noteq> []
   \<and> last (get_matching_blocks a b) = (length a, length b, 0)"
proof -
  define found where "found = gmb_loop a b [(0, length a, 0, length b)] []"
  have g: "(\<forall>blk\<in>set found. blk_valid a b blk \<and> 1 \<le> snd (snd blk))
           \<and> sorted_wrt apart (map rect_of found)"
    unfolding found_def by (rule gmb_loop_inv) (simp_all add: inside_def)
  then have ap: "sorted_wrt (\<lambda>x y. apart (rect_of x) (rect_of y)) (sort found)"
    by (simp add: apart_sort sorted_wrt_map)
  have f: "sorted_wrt follows (sort found)"
    by (rule sorted_apart_follows[OF _ ap]) (use g in simp_all)
  have s: "sorted_wrt follows ([] @ (0, 0, 0) # sort found)"
    using f by (simp add: follows_zero)
  have w: "\<forall>blk\<in>set ([] @ (0, 0, 0) # sort found). blk_valid a b blk"
    using g by (auto simp: blk_valid_def)
  note m = merge_adjacent_inv[OF s w]
  have l: "\<forall>blk\<in>set (merge_adjacent (sort found) (0, 0, 0) []). follows blk (length a, length b, 0)"
    using m follows_end by blast
  have gm: "get_matching_blocks a b
            = merge_adjacent (sort found) (0, 0, 0) [] @ [(length a, length b, 0)]"
    by (simp add: get_matching_blocks_def Let_def found_def)
  show ?thesis
    unfolding gm using m l by (auto simp: sorted_wrt_append blk_valid_def)
qed

subsection \<open>Different lists give a diff that is not empty\<close>

text \<open>When every opcode is \<open>equal\<close>, the two lists are the same list.\<close>

lemma opcodes_loop_keeps: "set answer \<subseteq> set (opcodes_loop blocks i j answer)"
proof (induction blocks arbitrary: i j answer)
  case Nil
  then show ?case by simp
next
  case (Cons blk blocks)
  obtain ai bj sz where blk: "blk = (ai, bj, sz)" by (cases blk)
  define answer1 where
    "answer1 = (if i < ai \<and> j < bj then answer @ [(Replace, i, ai, j, bj)]
                else if i < ai then answer @ [(Delete, i, ai, j, bj)]
                else if j < bj then answer @ [(Insert, i, ai, j, bj)]
                else answer)"
  define answer2 where
    "answer2 = (if sz \<noteq> 0 then answer1 @ [(Equal, ai, ai + sz, bj, bj + sz)] else answer1)"
  have e: "opcodes_loop (blk # blocks) i j answer = opcodes_loop blocks (ai + sz) (bj + sz) answer2"
    by (simp add: blk Let_def answer1_def answer2_def)
  have "set answer \<subseteq> set answer2"
    by (auto simp: answer1_def answer2_def)
  then show ?case
    unfolding e using Cons.IH[where answer=answer2 and i="ai + sz" and j="bj + sz"] by blast
qed

lemma opcodes_loop_all_equal:
  assumes "sorted_wrt follows blocks"
      and "\<forall>blk\<in>set blocks. blk_valid a b blk"
      and "\<forall>blk\<in>set blocks. i \<le> fst blk \<and> i \<le> fst (snd blk)"
      and "blocks \<noteq> []" and "last blocks = (length a, length b, 0)"
      and "i \<le> length a" and "i \<le> length b" and "\<forall>t<i. a ! t = b ! t"
      and "\<forall>opc\<in>set (opcodes_loop blocks i i answer). fst opc = Equal"
  shows "a = b"
  using assms
proof (induction blocks arbitrary: i answer)
  case Nil
  then show ?case by simp
next
  case (Cons blk blocks)
  obtain ai bj sz where blk: "blk = (ai, bj, sz)" by (cases blk)
  define answer1 where
    "answer1 = (if i < ai \<and> i < bj then answer @ [(Replace, i, ai, i, bj)]
                else if i < ai then answer @ [(Delete, i, ai, i, bj)]
                else if i < bj then answer @ [(Insert, i, ai, i, bj)]
                else answer)"
  define answer2 where
    "answer2 = (if sz \<noteq> 0 then answer1 @ [(Equal, ai, ai + sz, bj, bj + sz)] else answer1)"
  have e: "opcodes_loop (blk # blocks) i i answer = opcodes_loop blocks (ai + sz) (bj + sz) answer2"
    by (simp add: blk Let_def answer1_def answer2_def)
  have all2: "\<forall>opc\<in>set answer2. fst opc = Equal"
    using Cons.prems(9) opcodes_loop_keeps[of answer2 blocks "ai + sz" "bj + sz"]
    unfolding e by blast
  then have all1: "\<forall>opc\<in>set answer1. fst opc = Equal"
    by (auto simp: answer2_def split: if_splits)
  have notag: "\<not> i < ai \<and> \<not> i < bj"
  proof (rule ccontr)
    assume "\<not> (\<not> i < ai \<and> \<not> i < bj)"
    then have "\<exists>opc\<in>set answer1. fst opc \<noteq> Equal"
      by (auto simp: answer1_def)
    then show False using all1 by blast
  qed
  have "i \<le> ai \<and> i \<le> bj" using Cons.prems(3) by (simp add: blk)
  then have ij: "ai = i" "bj = i" using notag by auto
  have v: "i + sz \<le> length a" "i + sz \<le> length b" "\<forall>t<sz. a ! (i + t) = b ! (i + t)"
    using Cons.prems(2) by (auto simp: blk ij blk_valid_def)
  have pre: "\<forall>t<i + sz. a ! t = b ! t"
  proof (intro allI impI)
    fix t assume t: "t < i + sz"
    show "a ! t = b ! t"
    proof (cases "t < i")
      case True
      then show ?thesis using Cons.prems(8) by simp
    next
      case False
      then have "t - i < sz" using t by simp
      then have "a ! (i + (t - i)) = b ! (i + (t - i))" using v(3) by blast
      then show ?thesis using False by simp
    qed
  qed
  show ?case
  proof (cases "blocks = []")
    case True
    then have "blk = (length a, length b, 0)" using Cons.prems(5) by simp
    then have "length a = i" "length b = i" using blk ij by auto
    then show ?thesis
      using Cons.prems(8) by (simp add: list_eq_iff_nth_eq)
  next
    case False
    have s: "sorted_wrt follows blocks" using Cons.prems(1) by simp
    have w: "\<forall>blk\<in>set blocks. blk_valid a b blk" using Cons.prems(2) by simp
    have st: "\<forall>c\<in>set blocks. i + sz \<le> fst c \<and> i + sz \<le> fst (snd c)"
    proof
      fix c assume c: "c \<in> set blocks"
      obtain ci cj ck where c': "c = (ci, cj, ck)" by (cases c)
      have "follows blk c" using Cons.prems(1) c by simp
      then show "i + sz \<le> fst c \<and> i + sz \<le> fst (snd c)"
        by (simp add: follows_def before_def rect_of_def blk ij c')
    qed
    have l: "last blocks = (length a, length b, 0)" using Cons.prems(5) False by simp
    have o: "\<forall>opc\<in>set (opcodes_loop blocks (i + sz) (i + sz) answer2). fst opc = Equal"
      using Cons.prems(9) unfolding e ij .
    show ?thesis
      by (rule Cons.IH[OF s w st False l v(1) v(2) pre o])
  qed
qed

lemma get_opcodes_not_all_equal:
  assumes "a \<noteq> b"
  shows "\<exists>opc\<in>set (get_opcodes a b). fst opc \<noteq> Equal"
proof (rule ccontr)
  assume "\<not> (\<exists>opc\<in>set (get_opcodes a b). fst opc \<noteq> Equal)"
  then have o: "\<forall>opc\<in>set (opcodes_loop (get_matching_blocks a b) 0 0 []). fst opc = Equal"
    by (simp add: get_opcodes_def)
  note g = get_matching_blocks_inv[of a b]
  have "a = b"
    by (rule opcodes_loop_all_equal[OF _ _ _ _ _ _ _ _ o]) (use g in simp_all)
  then show False using assms by simp
qed

text \<open>An opcode that is not \<open>equal\<close> gives at least one group, hence at least one line.\<close>

lemma group_loop_not_empty:
  assumes "(\<exists>opc\<in>set codes. fst opc \<noteq> Equal) \<or> (\<exists>opc\<in>set grp. fst opc \<noteq> Equal) \<or> groups \<noteq> []"
  shows "group_loop n codes grp groups \<noteq> []"
  using assms
proof (induction codes arbitrary: grp groups)
  case Nil
  show ?case
  proof (cases "groups = []")
    case False
    then show ?thesis by simp
  next
    case True
    then obtain opc where o: "opc \<in> set grp" "fst opc \<noteq> Equal" using Nil by auto
    then have ne: "grp \<noteq> []" by auto
    have "\<not> (length grp = 1 \<and> fst (hd grp) = Equal)"
    proof
      assume l: "length grp = 1 \<and> fst (hd grp) = Equal"
      then obtain x where "grp = [x]" by (cases grp) auto
      then show False using o l by simp
    qed
    then show ?thesis using ne by simp
  qed
next
  case (Cons c codes)
  obtain tag i1 i2 j1 j2 where c: "c = (tag, i1, i2, j1, j2)" by (cases c)
  show ?case
  proof (cases "tag = Equal \<and> i2 - i1 > n + n")
    case True
    then show ?thesis
      unfolding c by (simp add: Cons.IH)
  next
    case False
    have "(\<exists>opc\<in>set codes. fst opc \<noteq> Equal)
          \<or> (\<exists>opc\<in>set (grp @ [(tag, i1, i2, j1, j2)]). fst opc \<noteq> Equal) \<or> groups \<noteq> []"
      using Cons.prems by (auto simp: c)
    then show ?thesis
      using False unfolding c by (simp add: Cons.IH)
  qed
qed

lemma fix_first_tags: "codes \<noteq> [] \<Longrightarrow> map fst (fix_first n codes) = map fst codes"
  by (cases codes) (auto simp: fix_first_def split: prod.splits)

lemma fix_last_tags: "codes \<noteq> [] \<Longrightarrow> map fst (fix_last n codes) = map fst codes"
proof -
  assume ne: "codes \<noteq> []"
  then have s: "codes = butlast codes @ [last codes]" by simp
  obtain tag i1 i2 j1 j2 where l: "last codes = (tag, i1, i2, j1, j2)" by (cases "last codes")
  have "map fst codes = map fst (butlast codes) @ [tag]"
    using s l by (metis (no_types, lifting) fst_conv list.simps(8,9) map_append)
  then show ?thesis
    by (simp add: fix_last_def l)
qed

lemma get_grouped_opcodes_not_empty:
  assumes "a \<noteq> b"
  shows "get_grouped_opcodes a b n \<noteq> []"
proof -
  obtain opc where o: "opc \<in> set (get_opcodes a b)" "fst opc \<noteq> Equal"
    using get_opcodes_not_all_equal[OF assms] by blast
  then have ne: "get_opcodes a b \<noteq> []" by auto
  have ne1: "fix_first n (get_opcodes a b) \<noteq> []"
    using fix_first_tags[OF ne, of n] ne by (metis map_is_Nil_conv)
  have "map fst (fix_last n (fix_first n (get_opcodes a b))) = map fst (get_opcodes a b)"
    using fix_last_tags[OF ne1] fix_first_tags[OF ne] by simp
  then have "set (map fst (fix_last n (fix_first n (get_opcodes a b)))) = set (map fst (get_opcodes a b))"
    by simp
  then have "fst opc \<in> fst ` set (fix_last n (fix_first n (get_opcodes a b)))"
    using o(1) by (simp only: set_map) blast
  then obtain c where "c \<in> set (fix_last n (fix_first n (get_opcodes a b)))" "fst c = fst opc"
    by force
  then have "\<exists>c\<in>set (fix_last n (fix_first n (get_opcodes a b))). fst c \<noteq> Equal"
    using o(2) by metis
  then have "group_loop n (fix_last n (fix_first n (get_opcodes a b))) [] [] \<noteq> []"
    by (intro group_loop_not_empty) blast
  then show ?thesis
    using ne by (simp add: get_grouped_opcodes_def Let_def)
qed

lemma unified_diff_not_empty:
  assumes "a \<noteq> b"
  shows "unified_diff a b fromfile tofile lineterm \<noteq> []"
  using get_grouped_opcodes_not_empty[OF assms, of 3]
  by (cases "get_grouped_opcodes a b 3") (simp_all add: unified_diff_def)

text \<open>The lines with their line ends, joined, are the text.\<close>

lemma concat_splitlines_from: "concat (splitlines_from True cur s) = cur @ s"
proof (induction True cur s rule: splitlines_from.induct)
  case (1 cur)
  then show ?case by simp
next
  case (2 cur c cs)
  show ?case
  proof (cases "is_linebreak c")
    case False
    then show ?thesis using 2 by simp
  next
    case lb: True
    show ?thesis
    proof (cases "c = 13 \<and> cs \<noteq> [] \<and> hd cs = 10")
      case True
      then have "cs = 10 # tl cs" by (cases cs) auto
      then show ?thesis using 2(1)[OF lb True] lb True by (simp del: splitlines_from.simps(2)) (simp)
    next
      case False
      then show ?thesis using 2(2)[OF lb False] lb by auto
    qed
  qed
qed

lemma concat_splitlines: "concat (splitlines True s) = s"
  by (simp add: splitlines_def concat_splitlines_from)

lemma splitlines_inj: "s \<noteq> s' \<Longrightarrow> splitlines True s \<noteq> splitlines True s'"
  using concat_splitlines by metis

subsection \<open>The comparison of two different texts\<close>

lemma compare_same:
  "compare A A = \<lparr>unchanged = True, diffLines = [], added = {}, removed = {}\<rparr>"
  by (simp add: compare_def)

lemma compare_differ:
  assumes "previous \<noteq> current"
  shows "\<not> unchanged (compare previous current)"
    and "diffLines (compare previous current) \<noteq> []"
    and "added (compare previous current)
         = set (splitlines False current) - set (splitlines False previous)"
    and "removed (compare previous current)
         = set (splitlines False previous) - set (splitlines False current)"
proof -
  have "splitlines True previous \<noteq> splitlines True current"
    using assms by (rule splitlines_inj)
  then have "unified_diff (splitlines True previous) (splitlines True current)
               (py ''Previous Routes'') (py ''Current Routes'') [] \<noteq> []"
    by (rule unified_diff_not_empty)
  then show "diffLines (compare previous current) \<noteq> []"
    using assms by (simp add: compare_def Let_def)
  show "\<not> unchanged (compare previous current)"
    using assms by (simp add: compare_def Let_def)
  show "added (compare previous current)
         = set (splitlines False current) - set (splitlines False previous)"
    using assms by (simp add: compare_def Let_def)
  show "removed (compare previous current)
         = set (splitlines False previous) - set (splitlines False current)"
    using assms by (simp add: compare_def Let_def)
qed

lemma reported_props:
  assumes "finite routes"
  shows "sorted (reported routes) \<and> distinct (reported routes)
       \<and> set (reported routes) = {route \<in> routes. \<exists>c\<in>set route. \<not> isspace c}"
  using assms
  by (auto simp: reported_def sorted_filter[where f="\<lambda>x. x", simplified] strip_Nil_iff)

lemma compare_log_changed:
  assumes "A \<noteq> B"
  shows "compare_log (compare A B) =
           [(INFO, py ''Route change detected!''), (INFO, replicate 60 45),
            (INFO, py ''Routing table diff:'')]
           @ map (\<lambda>line. (INFO, rstrip line)) (diffLines (compare A B))
           @ [(INFO, replicate 60 45)]
           @ (if added (compare A B) = {} then []
              else (INFO, py ''Added routes:'')
                   # map (\<lambda>route. (INFO, py ''  + '' @ route)) (reported (added (compare A B))))
           @ (if removed (compare A B) = {} then []
              else (INFO, py ''Removed routes:'')
                   # map (\<lambda>route. (INFO, py ''  - '' @ route)) (reported (removed (compare A B))))
           @ [(INFO, replicate 60 61)]"
  using compare_differ(1,2)[OF assms] by (simp add: compare_log_def)

lemma single_distinct: "distinct xs \<Longrightarrow> set xs = {x} \<Longrightarrow> xs = [x]"
proof (cases xs)
  case Nil
  assume "set xs = {x}"
  then show ?thesis using Nil by simp
next
  case (Cons y ys)
  assume d: "distinct xs" and s: "set xs = {x}"
  have y: "y = x" using s Cons by auto
  have "set ys \<subseteq> {x}" using s Cons by auto
  moreover have "x \<notin> set ys" using d Cons y by simp
  ultimately have "ys = []" by (cases ys) auto
  then show ?thesis using Cons y by simp
qed

section \<open>The claims\<close>

text \<open>
  Claim C1. The comparison returns at its equality test exactly when the two texts are
  the same string, and exactly then the diff, the added lines and the removed lines are
  all empty: two different texts always give a unified diff with at least one line. In
  particular a text compared with itself is unchanged, with empty diff, added and removed.
\<close>

theorem compare_unchanged_iff:
  "(unchanged (compare previous current) \<longleftrightarrow>
      added (compare previous current) = {} \<and> removed (compare previous current) = {}
      \<and> diffLines (compare previous current) = [])
   \<and> (unchanged (compare previous current) \<longleftrightarrow> previous = current)
   \<and> compare A A = \<lparr>unchanged = True, diffLines = [], added = {}, removed = {}\<rparr>"
proof (cases "previous = current")
  case True
  then show ?thesis by (simp add: compare_same)
next
  case False
  then show ?thesis
    using compare_differ(1,2)[OF False] by (simp add: compare_same)
qed

theorem compare_unchanged_iff_witness:
  "unchanged (compare (py ''a\<newline>'') (py ''a\<newline>''))
   \<and> diffLines (compare (py ''a\<newline>'') (py ''a\<newline>'')) = []
   \<and> \<not> unchanged (compare (py ''a\<newline>b'') (py ''b\<newline>a''))
   \<and> added (compare (py ''a\<newline>b'') (py ''b\<newline>a'')) = {}
   \<and> removed (compare (py ''a\<newline>b'') (py ''b\<newline>a'')) = {}
   \<and> diffLines (compare (py ''a\<newline>b'') (py ''b\<newline>a'')) \<noteq> []"
proof -
  note same = compare_unchanged_iff[of "py ''a\<newline>''" "py ''a\<newline>''" "py ''a\<newline>''"]
  note differ = compare_unchanged_iff[of "py ''a\<newline>b''" "py ''b\<newline>a''" "py ''a\<newline>''"]
  have ne: "py ''a\<newline>b'' \<noteq> py ''b\<newline>a''"
    by (simp add: py_def)
  have sets: "added (compare (py ''a\<newline>b'') (py ''b\<newline>a'')) = {}
              \<and> removed (compare (py ''a\<newline>b'') (py ''b\<newline>a'')) = {}"
    by (simp add: compare_def Let_def splitlines_def is_linebreak_def py_def)
  have u: "unchanged (compare (py ''a\<newline>'') (py ''a\<newline>''))
           \<and> diffLines (compare (py ''a\<newline>'') (py ''a\<newline>'')) = []"
    using same by simp
  show ?thesis
    using u differ ne sets by blast
qed

text \<open>
  Claim C3. Two different texts whose lines (without their line ends) form the same
  multiset are reported as changed, with a unified diff that is not empty and with no
  added and no removed line. That the lines come in a different order is not needed
  beyond the texts being different.
\<close>

theorem compare_reordered:
  assumes "A \<noteq> B"
      and "mset (splitlines False A) = mset (splitlines False B)"
  shows "\<not> unchanged (compare A B) \<and> diffLines (compare A B) \<noteq> []
       \<and> added (compare A B) = {} \<and> removed (compare A B) = {}"
proof -
  have "set (splitlines False A) = set (splitlines False B)"
    using assms(2) by (rule mset_eq_setD)
  then show ?thesis
    using compare_differ[OF assms(1)] by simp
qed

theorem compare_reordered_witness:
  "py ''a\<newline>b\<newline>'' \<noteq> py ''b\<newline>a\<newline>''
   \<and> mset (splitlines False (py ''a\<newline>b\<newline>'')) = mset (splitlines False (py ''b\<newline>a\<newline>''))
   \<and> splitlines False (py ''a\<newline>b\<newline>'') \<noteq> splitlines False (py ''b\<newline>a\<newline>'')
   \<and> \<not> unchanged (compare (py ''a\<newline>b\<newline>'') (py ''b\<newline>a\<newline>''))
   \<and> diffLines (compare (py ''a\<newline>b\<newline>'') (py ''b\<newline>a\<newline>'')) \<noteq> []
   \<and> added (compare (py ''a\<newline>b\<newline>'') (py ''b\<newline>a\<newline>'')) = {}
   \<and> removed (compare (py ''a\<newline>b\<newline>'') (py ''b\<newline>a\<newline>'')) = {}"
proof -
  have h1: "py ''a\<newline>b\<newline>'' \<noteq> py ''b\<newline>a\<newline>''"
    by (simp add: py_def)
  have l1: "splitlines False (py ''a\<newline>b\<newline>'') = [[97], [98]]"
    by (simp add: splitlines_def is_linebreak_def py_def)
  have l2: "splitlines False (py ''b\<newline>a\<newline>'') = [[98], [97]]"
    by (simp add: splitlines_def is_linebreak_def py_def)
  have h2: "mset (splitlines False (py ''a\<newline>b\<newline>'')) = mset (splitlines False (py ''b\<newline>a\<newline>''))"
    unfolding l1 l2 by (simp add: add_mset_commute)
  have h3: "splitlines False (py ''a\<newline>b\<newline>'') \<noteq> splitlines False (py ''b\<newline>a\<newline>'')"
    unfolding l1 l2 by simp
  show ?thesis
    using compare_reordered[OF h1 h2] h1 h2 h3 by blast
qed

text \<open>
  Claim C2. When the snapshot source fails, that is \<open>check_routes\<close> returns \<open>None\<close>,
  \<open>run_once\<close> returns \<open>False\<close> and leaves every file as it was; after the
  acquisition it only logs the failure, so the previous snapshot is not loaded, nothing is
  compared, no statistics are collected and nothing is saved.
\<close>

theorem run_once_acquisition_failure:
  assumes "fst (check_routes cfg ev s0) = Inr None"
  shows "fst (run_once cfg ev st) = Inr False
       \<and> fs (snd (run_once cfg ev st)) = fs st
       \<and> log (snd (run_once cfg ev st)) =
           log (snd (check_routes cfg ev (logging INFO (py ''Starting single route check...'') st)))
           @ [(ERROR, py ''Failed to retrieve routing table'')]"
proof -
  define st0 where "st0 = logging INFO (py ''Starting single route check...'') st"
  have "fst (check_routes cfg ev st0) = Inr None"
    using assms fst_check_routes[of cfg ev st0 s0] by simp
  then obtain st1 where c: "check_routes cfg ev st0 = (Inr None, st1)"
    by (cases "check_routes cfg ev st0") auto
  have r: "run_once cfg ev st = (Inr False, logging ERROR (py ''Failed to retrieve routing table'') st1)"
    using c by (simp add: run_once_def st0_def)
  have "fs st1 = fs st"
    using fs_check_routes[of cfg ev st0] c by (simp add: st0_def fs_logging)
  then show ?thesis
    using r c by (simp add: fs_logging st0_def logging_def)
qed

theorem run_once_acquisition_failure_witness:
  "fst (check_routes example_config (example_env\<lparr>local_run := TimeoutExpired\<rparr>) example_state_old)
     = Inr None
   \<and> fst (run_once example_config (example_env\<lparr>local_run := TimeoutExpired\<rparr>) example_state_old)
     = Inr False
   \<and> fs (snd (run_once example_config (example_env\<lparr>local_run := TimeoutExpired\<rparr>) example_state_old))
     = fs example_state_old"
proof -
  have h: "fst (check_routes example_config (example_env\<lparr>local_run := TimeoutExpired\<rparr>)
                  example_state_old) = Inr None"
    by (rule example_timeout)
  show ?thesis
    using h run_once_acquisition_failure[OF h, of example_state_old] by blast
qed

text \<open>
  Claim C4. For all snapshot texts \<open>A\<close> and \<open>B\<close> the added and the removed lines of
  the comparison are disjoint, and exchanging the arguments exchanges the two sets.
\<close>

theorem compare_added_removed_swap:
  "added (compare A B) \<inter> removed (compare A B) = {}
   \<and> added (compare A B) = removed (compare B A)
   \<and> removed (compare A B) = added (compare B A)"
  by (auto simp: compare_def Let_def)

text \<open>
  Claim C5. When the two texts differ, the log gains the change header, the unified diff,
  then under \<open>Added routes:\<close> one entry for each added route and under
  \<open>Removed routes:\<close> one for each removed route. The routes of each part are logged
  in sorted order, each once, and they are exactly the lines of the set that have a
  character that is not white space: a line that is empty or consists of white space only
  is never logged there, even when it is in the set. When the texts are equal, only the
  no-change message is logged.
\<close>

theorem compare_log_sorted_no_blank:
  "sorted (reported (added (compare A B))) \<and> distinct (reported (added (compare A B)))
   \<and> set (reported (added (compare A B)))
       = {route \<in> added (compare A B). \<exists>c\<in>set route. \<not> isspace c}
   \<and> sorted (reported (removed (compare A B))) \<and> distinct (reported (removed (compare A B)))
   \<and> set (reported (removed (compare A B)))
       = {route \<in> removed (compare A B). \<exists>c\<in>set route. \<not> isspace c}
   \<and> (A \<noteq> B \<longrightarrow>
        log (compare_and_log_changes A B st) =
          log st
          @ [(INFO, py ''Route change detected!''), (INFO, replicate 60 45),
             (INFO, py ''Routing table diff:'')]
          @ map (\<lambda>line. (INFO, rstrip line)) (diffLines (compare A B))
          @ [(INFO, replicate 60 45)]
          @ (if added (compare A B) = {} then []
             else (INFO, py ''Added routes:'')
                  # map (\<lambda>route. (INFO, py ''  + '' @ route)) (reported (added (compare A B))))
          @ (if removed (compare A B) = {} then []
             else (INFO, py ''Removed routes:'')
                  # map (\<lambda>route. (INFO, py ''  - '' @ route)) (reported (removed (compare A B))))
          @ [(INFO, replicate 60 61)])
   \<and> (A = B \<longrightarrow>
        log (compare_and_log_changes A B st)
          = log st @ [(INFO, py ''No routing table changes detected'')])"
proof -
  note a = reported_props[OF finite_compare(1), of A B]
  note r = reported_props[OF finite_compare(2), of A B]
  have c: "A \<noteq> B \<longrightarrow>
        log (compare_and_log_changes A B st) =
          log st
          @ [(INFO, py ''Route change detected!''), (INFO, replicate 60 45),
             (INFO, py ''Routing table diff:'')]
          @ map (\<lambda>line. (INFO, rstrip line)) (diffLines (compare A B))
          @ [(INFO, replicate 60 45)]
          @ (if added (compare A B) = {} then []
             else (INFO, py ''Added routes:'')
                  # map (\<lambda>route. (INFO, py ''  + '' @ route)) (reported (added (compare A B))))
          @ (if removed (compare A B) = {} then []
             else (INFO, py ''Removed routes:'')
                  # map (\<lambda>route. (INFO, py ''  - '' @ route)) (reported (removed (compare A B))))
          @ [(INFO, replicate 60 61)]"
  proof
    assume ne: "A \<noteq> B"
    show "log (compare_and_log_changes A B st) =
          log st
          @ [(INFO, py ''Route change detected!''), (INFO, replicate 60 45),
             (INFO, py ''Routing table diff:'')]
          @ map (\<lambda>line. (INFO, rstrip line)) (diffLines (compare A B))
          @ [(INFO, replicate 60 45)]
          @ (if added (compare A B) = {} then []
             else (INFO, py ''Added routes:'')
                  # map (\<lambda>route. (INFO, py ''  + '' @ route)) (reported (added (compare A B))))
          @ (if removed (compare A B) = {} then []
             else (INFO, py ''Removed routes:'')
                  # map (\<lambda>route. (INFO, py ''  - '' @ route)) (reported (removed (compare A B))))
          @ [(INFO, replicate 60 61)]"
      unfolding compare_and_log_changes_def compare_log_changed[OF ne] by simp
  qed
  have u: "A = B \<longrightarrow>
        log (compare_and_log_changes A B st)
          = log st @ [(INFO, py ''No routing table changes detected'')]"
    by (simp add: compare_and_log_changes_def compare_log_def compare_same)
  show ?thesis using a r c u by blast
qed

theorem compare_log_sorted_no_blank_witness:
  "py ''a\<newline>'' \<noteq> py ''a\<newline> \<newline>b\<newline>''
   \<and> [32] \<in> added (compare (py ''a\<newline>'') (py ''a\<newline> \<newline>b\<newline>''))
   \<and> reported (added (compare (py ''a\<newline>'') (py ''a\<newline> \<newline>b\<newline>''))) = [[98]]
   \<and> log (compare_and_log_changes (py ''a\<newline>'') (py ''a\<newline> \<newline>b\<newline>'') example_state) =
        [(INFO, py ''Route change detected!''), (INFO, replicate 60 45),
         (INFO, py ''Routing table diff:'')]
        @ map (\<lambda>line. (INFO, rstrip line))
            (diffLines (compare (py ''a\<newline>'') (py ''a\<newline> \<newline>b\<newline>'')))
        @ [(INFO, replicate 60 45), (INFO, py ''Added routes:''), (INFO, py ''  + '' @ [98]),
           (INFO, replicate 60 61)]"
proof -
  let ?A = "py ''a\<newline>''" and ?B = "py ''a\<newline> \<newline>b\<newline>''"
  note t = compare_log_sorted_no_blank[of ?A ?B example_state]
  have ne: "?A \<noteq> ?B" by (simp add: py_def)
  have "{route \<in> {[32], [98::nat]}. \<exists>c\<in>set route. \<not> isspace c} = {[98]}"
    by (auto simp: isspace_def)
  then have s: "set (reported (added (compare ?A ?B))) = {[98]}"
    using t by (simp add: example_added)
  have d: "distinct (reported (added (compare ?A ?B)))"
    using t by blast
  have rep: "reported (added (compare ?A ?B)) = [[98]]"
    by (rule single_distinct[OF d s])
  have l: "log (compare_and_log_changes ?A ?B example_state) =
          log example_state
          @ [(INFO, py ''Route change detected!''), (INFO, replicate 60 45),
             (INFO, py ''Routing table diff:'')]
          @ map (\<lambda>line. (INFO, rstrip line)) (diffLines (compare ?A ?B))
          @ [(INFO, replicate 60 45)]
          @ (if added (compare ?A ?B) = {} then []
             else (INFO, py ''Added routes:'')
                  # map (\<lambda>route. (INFO, py ''  + '' @ route)) (reported (added (compare ?A ?B))))
          @ (if removed (compare ?A ?B) = {} then []
             else (INFO, py ''Removed routes:'')
                  # map (\<lambda>route. (INFO, py ''  - '' @ route)) (reported (removed (compare ?A ?B))))
          @ [(INFO, replicate 60 61)]"
    using t ne by blast
  have l': "log (compare_and_log_changes ?A ?B example_state) =
        [(INFO, py ''Route change detected!''), (INFO, replicate 60 45),
         (INFO, py ''Routing table diff:'')]
        @ map (\<lambda>line. (INFO, rstrip line)) (diffLines (compare ?A ?B))
        @ [(INFO, replicate 60 45), (INFO, py ''Added routes:''), (INFO, py ''  + '' @ [98]),
           (INFO, replicate 60 61)]"
    unfolding l example_removed example_added rep[unfolded example_added]
    by (simp add: example_state_def)
  have m: "[32] \<in> added (compare ?A ?B)"
    by (simp add: example_added)
  show ?thesis using ne m rep l' by blast
qed

text \<open>
  Claim C6, as amended. When the acquisition succeeds and no previous snapshot is loaded,
  the cycle is a first run: after loading it logs the first-run message and the number of
  lines of the current snapshot, compares nothing, collects the statistics, runs the save
  step and returns \<open>True\<close>. The files after the cycle are those that the save step
  leaves: the current snapshot is stored when persistence is enabled and the directory
  creation, the opening and the writing succeed, and nothing is written when persistence
  is disabled.
\<close>

theorem run_once_first_run:
  assumes "fst (check_routes cfg ev s0) = Inr (Some cur)"
      and "fst (load_previous_snapshot cfg ev st) = None"
  shows "fst (run_once cfg ev st) = Inr True
       \<and> snd (run_once cfg ev st) =
           logging INFO (py ''Route check completed'')
             (snd (save_snapshot cfg ev cur
                (snd (collect_network_stats cfg ev
                   (logging INFO
                      (py ''Current routing table has '' @ str_nat (length (splitlines False cur))
                         @ py '' entries'')
                      (logging INFO (py ''No previous snapshot found - this is the first run'')
                         (snd (load_previous_snapshot cfg ev
                            (snd (check_routes cfg ev
                               (logging INFO (py ''Starting single route check...'') st)))))))))))
       \<and> fs (snd (run_once cfg ev st)) = fs (snd (save_snapshot cfg ev cur st))
       \<and> (store_previous cfg \<and> makedirs ev (dirname (snapshot_file cfg)) = Inr ()
            \<and> open_error ev = None \<and> write_error ev = None
          \<longrightarrow> fs (snd (run_once cfg ev st)) = (fs st)(snapshot_file cfg \<mapsto> cur))
       \<and> (\<not> store_previous cfg \<longrightarrow> fs (snd (run_once cfg ev st)) = fs st)"
proof -
  define st0 where "st0 = logging INFO (py ''Starting single route check...'') st"
  have "fst (check_routes cfg ev st0) = Inr (Some cur)"
    using assms(1) fst_check_routes[of cfg ev st0 s0] by simp
  then obtain st1 where c: "check_routes cfg ev st0 = (Inr (Some cur), st1)"
    by (cases "check_routes cfg ev st0") auto
  have f1: "fs st1 = fs st"
    using fs_check_routes[of cfg ev st0] c by (simp add: st0_def fs_logging)
  have "fst (load_previous_snapshot cfg ev st1) = None"
    using assms(2) fst_load_previous_snapshot[OF f1] by simp
  then obtain st2 where l: "load_previous_snapshot cfg ev st1 = (None, st2)"
    by (cases "load_previous_snapshot cfg ev st1") auto
  note r = run_once_acquired[OF c[unfolded st0_def] l]
  note f = run_once_acquired_fs[OF assms(1), of st]
  have a: "fst (run_once cfg ev st) = Inr True" by (rule f(1))
  have b: "snd (run_once cfg ev st) =
           logging INFO (py ''Route check completed'')
             (snd (save_snapshot cfg ev cur
                (snd (collect_network_stats cfg ev
                   (logging INFO
                      (py ''Current routing table has '' @ str_nat (length (splitlines False cur))
                         @ py '' entries'')
                      (logging INFO (py ''No previous snapshot found - this is the first run'')
                         (snd (load_previous_snapshot cfg ev
                            (snd (check_routes cfg ev
                               (logging INFO (py ''Starting single route check...'') st)))))))))))"
    unfolding r using c l by (simp add: st0_def)
  have d: "store_previous cfg \<and> makedirs ev (dirname (snapshot_file cfg)) = Inr ()
            \<and> open_error ev = None \<and> write_error ev = None
          \<longrightarrow> fs (snd (run_once cfg ev st)) = (fs st)(snapshot_file cfg \<mapsto> cur)"
    using f(2) by (simp add: fs_save_snapshot_ok)
  have e: "\<not> store_previous cfg \<longrightarrow> fs (snd (run_once cfg ev st)) = fs st"
    using f(2) by (simp add: fs_save_snapshot_disabled)
  show ?thesis using a b f(2) d e by blast
qed

text \<open>A first run with persistence enabled: the snapshot is stored.\<close>

theorem run_once_first_run_witness:
  "fst (check_routes example_config example_env example_state) = Inr (Some (py ''a via eth0\<newline>''))
   \<and> fst (load_previous_snapshot example_config example_env example_state) = None
   \<and> store_previous example_config
   \<and> makedirs example_env (dirname (snapshot_file example_config)) = Inr ()
   \<and> open_error example_env = None \<and> write_error example_env = None
   \<and> fst (run_once example_config example_env example_state) = Inr True
   \<and> fs (snd (run_once example_config example_env example_state)) (py ''out/snap'')
       = Some (py ''a via eth0\<newline>'')"
proof -
  have h1: "fst (check_routes example_config example_env example_state)
            = Inr (Some (py ''a via eth0\<newline>''))"
    by (rule example_acquired)
  have h2: "fst (load_previous_snapshot example_config example_env example_state) = None"
    by (simp add: load_previous_snapshot_def example_defs)
  have h3: "store_previous example_config \<and> open_error example_env = None
            \<and> write_error example_env = None \<and> snapshot_file example_config = py ''out/snap''"
    by (simp add: example_defs)
  note t = run_once_first_run[OF h1 h2]
  have p: "fs (snd (run_once example_config example_env example_state))
           = (fs example_state)(snapshot_file example_config \<mapsto> py ''a via eth0\<newline>'')"
    using t h3 example_makedirs by blast
  have q: "fs (snd (run_once example_config example_env example_state)) (py ''out/snap'')
           = Some (py ''a via eth0\<newline>'')"
    unfolding p using h3 by simp
  have r: "fst (run_once example_config example_env example_state) = Inr True"
    using t by blast
  show ?thesis
    using h1 h2 h3 example_makedirs q r by blast
qed

text \<open>
  The claim as stated fails when persistence is disabled: the cycle is a first run and
  succeeds, and no snapshot file exists afterwards.
\<close>

theorem run_once_first_run_not_persisted:
  "fst (check_routes (example_config\<lparr>store_previous := False\<rparr>) example_env example_state)
     = Inr (Some (py ''a via eth0\<newline>''))
   \<and> fst (load_previous_snapshot (example_config\<lparr>store_previous := False\<rparr>) example_env example_state)
     = None
   \<and> fst (run_once (example_config\<lparr>store_previous := False\<rparr>) example_env example_state) = Inr True
   \<and> fs (snd (run_once (example_config\<lparr>store_previous := False\<rparr>) example_env example_state))
        (snapshot_file (example_config\<lparr>store_previous := False\<rparr>)) = None"
proof -
  let ?cfg = "example_config\<lparr>store_previous := False\<rparr>"
  have h1: "fst (check_routes ?cfg example_env example_state) = Inr (Some (py ''a via eth0\<newline>''))"
    by (simp add: example_defs check_routes_def get_routes_local_def py_def)
  have h2: "fst (load_previous_snapshot ?cfg example_env example_state) = None"
    by (simp add: load_previous_snapshot_def)
  have "fs (snd (run_once ?cfg example_env example_state)) = fs example_state"
    using run_once_acquired_fs(2)[OF h1, of example_state]
    by (simp add: fs_save_snapshot_disabled)
  then have "fs (snd (run_once ?cfg example_env example_state)) (snapshot_file ?cfg) = None"
    by (simp add: example_state_def)
  then show ?thesis
    using h1 h2 run_once_acquired_fs(1)[OF h1, of example_state] by simp
qed





text \<open>
  Claim C9, as amended. \<open>save_snapshot\<close> never raises: an exception of the directory
  creation, of the opening or of the writing is caught and logged as a warning. When the
  directory creation or the opening fails, every file is left as it was. In particular,
  for a snapshot path without a slash \<open>os.makedirs('')\<close> fails, the write is skipped
  and no snapshot is stored.
\<close>

theorem save_snapshot_never_raises:
  "fst (save_snapshot cfg ev routes st) = Inr ()
   \<and> (store_previous cfg \<and> fst (save_snapshot_try cfg ev routes st) = Inl e \<longrightarrow>
        log (snd (save_snapshot cfg ev routes st)) =
          log (snd (save_snapshot_try cfg ev routes st))
          @ [(WARNING, py ''Could not save snapshot: '' @ snd e)])
   \<and> (makedirs ev (dirname (snapshot_file cfg)) \<noteq> Inr () \<or> open_error ev \<noteq> None \<longrightarrow>
        fs (snd (save_snapshot cfg ev routes st)) = fs st)
   \<and> (47 \<notin> set (snapshot_file cfg) \<longrightarrow>
        fs (snd (save_snapshot cfg ev routes st)) = fs st
        \<and> (store_previous cfg \<longrightarrow>
             log (snd (save_snapshot cfg ev routes st)) =
               log st @ [(WARNING, py ''Could not save snapshot: ''
                                     @ py ''[Errno 2] No such file or directory: '' @ [39, 39])]))"
proof -
  have a: "fst (save_snapshot cfg ev routes st) = Inr ()"
    by (rule fst_save_snapshot)
  have b: "store_previous cfg \<and> fst (save_snapshot_try cfg ev routes st) = Inl e \<longrightarrow>
        log (snd (save_snapshot cfg ev routes st)) =
          log (snd (save_snapshot_try cfg ev routes st))
          @ [(WARNING, py ''Could not save snapshot: '' @ snd e)]"
    by (cases "save_snapshot_try cfg ev routes st") (auto simp: save_snapshot_def logging_def)
  have c: "makedirs ev (dirname (snapshot_file cfg)) \<noteq> Inr () \<or> open_error ev \<noteq> None \<longrightarrow>
        fs (snd (save_snapshot cfg ev routes st)) = fs st"
    by (cases "makedirs ev (dirname (snapshot_file cfg))"; cases "open_error ev")
       (auto simp: fs_save_snapshot fs_save_snapshot_try)
  have d: "fs (snd (save_snapshot cfg ev routes st)) = fs st
        \<and> (store_previous cfg \<longrightarrow>
             log (snd (save_snapshot cfg ev routes st)) =
               log st @ [(WARNING, py ''Could not save snapshot: ''
                                     @ py ''[Errno 2] No such file or directory: '' @ [39, 39])])"
    if "47 \<notin> set (snapshot_file cfg)"
  proof -
    have dn: "dirname (snapshot_file cfg) = []" using that by (rule dirname_no_slash)
    have t: "save_snapshot_try cfg ev routes st =
               (Inl (FileNotFoundError, py ''[Errno 2] No such file or directory: '' @ [39, 39]), st)"
      by (simp add: save_snapshot_try_def dn makedirs_def)
    show ?thesis
      by (simp add: save_snapshot_def t logging_def)
  qed
  show ?thesis using a b c d by blast
qed

theorem save_snapshot_never_raises_witness:
  "47 \<notin> set (snapshot_file (example_config\<lparr>snapshot_file := py ''snap''\<rparr>))
   \<and> store_previous (example_config\<lparr>snapshot_file := py ''snap''\<rparr>)
   \<and> makedirs example_env (dirname (snapshot_file (example_config\<lparr>snapshot_file := py ''snap''\<rparr>)))
       \<noteq> Inr ()
   \<and> fst (save_snapshot_try (example_config\<lparr>snapshot_file := py ''snap''\<rparr>) example_env
             (py ''a via eth0\<newline>'') example_state)
       = Inl (FileNotFoundError, py ''[Errno 2] No such file or directory: '' @ [39, 39])
   \<and> fst (save_snapshot (example_config\<lparr>snapshot_file := py ''snap''\<rparr>) example_env
             (py ''a via eth0\<newline>'') example_state) = Inr ()
   \<and> fs (snd (save_snapshot (example_config\<lparr>snapshot_file := py ''snap''\<rparr>) example_env
                 (py ''a via eth0\<newline>'') example_state)) = fs example_state"
proof -
  let ?cfg = "example_config\<lparr>snapshot_file := py ''snap''\<rparr>"
  have h1: "47 \<notin> set (snapshot_file ?cfg)"
    by (simp add: py_def)
  have h2: "store_previous ?cfg"
    by (simp add: example_config_def)
  have dn: "dirname (snapshot_file ?cfg) = []"
    by (simp add: dirname_def py_def)
  have h3: "makedirs example_env (dirname (snapshot_file ?cfg)) \<noteq> Inr ()"
    unfolding dn by (simp add: makedirs_def)
  have h4: "fst (save_snapshot_try ?cfg example_env (py ''a via eth0\<newline>'') example_state)
       = Inl (FileNotFoundError, py ''[Errno 2] No such file or directory: '' @ [39, 39])"
    unfolding save_snapshot_try_def Let_def dn by (simp add: makedirs_def)
  note t = save_snapshot_never_raises[of ?cfg example_env "py ''a via eth0\<newline>''" example_state
      "(FileNotFoundError, py ''[Errno 2] No such file or directory: '' @ [39, 39])"]
  show ?thesis
    using t h1 h2 h3 h4 by blast
qed

text \<open>
  The claim as stated fails for an exception raised while writing: the file was opened,
  hence truncated, before; the exception is caught, and the previous snapshot is lost.
\<close>

theorem save_snapshot_write_failure_truncates:
  "fst (save_snapshot_try example_config
          (example_env\<lparr>write_error := Some ((OSError, py ''[Errno 28] No space left on device''), 0)\<rparr>)
          (py ''a via eth0\<newline>'') example_state_old) = Inl (OSError, py ''[Errno 28] No space left on device'')
   \<and> fst (save_snapshot example_config
          (example_env\<lparr>write_error := Some ((OSError, py ''[Errno 28] No space left on device''), 0)\<rparr>)
          (py ''a via eth0\<newline>'') example_state_old) = Inr ()
   \<and> fs example_state_old (py ''out/snap'') = Some (py ''b via eth1\<newline>'')
   \<and> fs (snd (save_snapshot example_config
          (example_env\<lparr>write_error := Some ((OSError, py ''[Errno 28] No space left on device''), 0)\<rparr>)
          (py ''a via eth0\<newline>'') example_state_old)) (py ''out/snap'') = Some []"
proof -
  let ?ev = "example_env\<lparr>write_error := Some ((OSError, py ''[Errno 28] No space left on device''), 0)\<rparr>"
  have m: "makedirs ?ev (dirname (snapshot_file example_config)) = Inr ()"
    by (simp add: example_dirname makedirs_def) (simp add: example_defs py_def)
  have o: "open_error ?ev = None" "write_error ?ev = Some ((OSError, py ''[Errno 28] No space left on device''), 0)"
    by (simp_all add: example_env_def)
  have 1: "fst (save_snapshot_try example_config ?ev (py ''a via eth0\<newline>'') example_state_old)
           = Inl (OSError, py ''[Errno 28] No space left on device'')"
    using m o by (simp add: save_snapshot_try_def Let_def)
  have 2: "fs (snd (save_snapshot example_config ?ev (py ''a via eth0\<newline>'') example_state_old))
           = (fs example_state_old)(snapshot_file example_config \<mapsto> [])"
    using m o by (simp add: fs_save_snapshot fs_save_snapshot_try example_config_def)
  have 3: "snapshot_file example_config = py ''out/snap''"
    by (simp add: example_config_def)
  show ?thesis
    using 1 by (simp add: 2 3 fst_save_snapshot) (simp add: example_state_old_def)
qed

text \<open>
  Claim C10, as amended. When \<open>store_previous\<close> is false,
  \<open>load_previous_snapshot\<close> returns \<open>None\<close> and \<open>save_snapshot\<close> changes
  nothing; every cycle whose acquisition succeeds then takes the first-run path (first-run
  messages, statistics, completion; no comparison), leaves every file as it was and
  returns \<open>True\<close>.
\<close>

theorem store_previous_disabled:
  assumes "\<not> store_previous cfg"
  shows "load_previous_snapshot cfg ev st = (None, st)
       \<and> save_snapshot cfg ev routes st = (Inr (), st)
       \<and> (fst (check_routes cfg ev s0) = Inr (Some cur) \<longrightarrow>
            fst (run_once cfg ev st) = Inr True
            \<and> fs (snd (run_once cfg ev st)) = fs st
            \<and> snd (run_once cfg ev st) =
                logging INFO (py ''Route check completed'')
                  (snd (collect_network_stats cfg ev
                     (logging INFO
                        (py ''Current routing table has '' @ str_nat (length (splitlines False cur))
                           @ py '' entries'')
                        (logging INFO (py ''No previous snapshot found - this is the first run'')
                           (snd (check_routes cfg ev
                              (logging INFO (py ''Starting single route check...'') st))))))))"
proof -
  have l: "\<And>s. load_previous_snapshot cfg ev s = (None, s)"
    using assms by (simp add: load_previous_snapshot_def)
  have sv: "\<And>s. save_snapshot cfg ev routes s = (Inr (), s)"
    using assms by (simp add: save_snapshot_def)
  have r: "fst (run_once cfg ev st) = Inr True
            \<and> fs (snd (run_once cfg ev st)) = fs st
            \<and> snd (run_once cfg ev st) =
                logging INFO (py ''Route check completed'')
                  (snd (collect_network_stats cfg ev
                     (logging INFO
                        (py ''Current routing table has '' @ str_nat (length (splitlines False cur))
                           @ py '' entries'')
                        (logging INFO (py ''No previous snapshot found - this is the first run'')
                           (snd (check_routes cfg ev
                              (logging INFO (py ''Starting single route check...'') st)))))))"
    if acq: "fst (check_routes cfg ev s0) = Inr (Some cur)"
  proof -
    define st0 where "st0 = logging INFO (py ''Starting single route check...'') st"
    have "fst (check_routes cfg ev st0) = Inr (Some cur)"
      using acq fst_check_routes[of cfg ev st0 s0] by simp
    then obtain st1 where c: "check_routes cfg ev st0 = (Inr (Some cur), st1)"
      by (cases "check_routes cfg ev st0") auto
    note ro = run_once_acquired[OF c[unfolded st0_def] l[of st1]]
    have "fs (snd (run_once cfg ev st)) = fs st"
      using run_once_acquired_fs(2)[OF acq, of st] assms by (simp add: fs_save_snapshot_disabled)
    moreover have "save_snapshot cfg ev cur = (\<lambda>s. (Inr (), s))"
      using assms by (simp add: save_snapshot_def fun_eq_iff)
    ultimately show ?thesis
      using run_once_acquired_fs(1)[OF acq, of st] c
      unfolding ro by (simp add: st0_def)
  qed
  show ?thesis using l sv r by blast
qed

theorem store_previous_disabled_witness:
  "\<not> store_previous (example_config\<lparr>store_previous := False\<rparr>)
   \<and> fst (check_routes (example_config\<lparr>store_previous := False\<rparr>) example_env example_state_old)
       = Inr (Some (py ''a via eth0\<newline>''))
   \<and> load_previous_snapshot (example_config\<lparr>store_previous := False\<rparr>) example_env example_state_old
       = (None, example_state_old)
   \<and> fst (run_once (example_config\<lparr>store_previous := False\<rparr>) example_env example_state_old) = Inr True
   \<and> fs (snd (run_once (example_config\<lparr>store_previous := False\<rparr>) example_env example_state_old))
       = fs example_state_old"
proof -
  let ?cfg = "example_config\<lparr>store_previous := False\<rparr>"
  have h1: "\<not> store_previous ?cfg" by simp
  have h2: "fst (check_routes ?cfg example_env example_state_old) = Inr (Some (py ''a via eth0\<newline>''))"
    by (simp add: example_defs check_routes_def get_routes_local_def py_def)
  note t = store_previous_disabled[OF h1, of example_env example_state_old _ example_state_old
      "py ''a via eth0\<newline>''"]
  show ?thesis using t h1 h2 by blast
qed

text \<open>
  The claim as stated fails for a cycle whose acquisition fails: it returns \<open>False\<close>.
\<close>

theorem store_previous_disabled_failure:
  "\<not> store_previous (example_config\<lparr>store_previous := False\<rparr>)
   \<and> fst (run_once (example_config\<lparr>store_previous := False\<rparr>)
             (example_env\<lparr>local_run := TimeoutExpired\<rparr>) example_state) = Inr False"
proof -
  let ?cfg = "example_config\<lparr>store_previous := False\<rparr>"
  let ?ev = "example_env\<lparr>local_run := TimeoutExpired\<rparr>"
  have "fst (check_routes ?cfg ?ev s) = Inr None" for s
    by (simp add: example_defs check_routes_def get_routes_local_def py_def)
  then obtain st1 where
    "check_routes ?cfg ?ev (logging INFO (py ''Starting single route check...'') example_state)
       = (Inr None, st1)"
    by (metis prod.collapse)
  then show ?thesis by (simp add: run_once_def)
qed

end
